theory Spec2Isabelle
  imports Main
begin

section \<open>Python strings\<close>

text \<open>
  The analyzer of \<^verbatim>\<open>get_stats.py\<close> works on Python \<^verbatim>\<open>str\<close> values. A text is modelled
  as a \<^typ>\<open>string\<close> whose characters are the code points below 256: what the
  \<^verbatim>\<open>latin-1\<close> fallback of \<^verbatim>\<open>parse_bibtex_file\<close> produces for every file, and what
  the \<^verbatim>\<open>utf-8\<close> decoding produces for files in ASCII or with Latin-1 letters only.
  The character classes below are Python's Unicode classes on those code points.
\<close>

definition py_isspace :: "char \<Rightarrow> bool" where
  \<comment> \<open>\<^verbatim>\<open>str.isspace\<close>, the characters removed by \<^verbatim>\<open>str.strip()\<close> and matched by \<^verbatim>\<open>\s\<close>\<close>
  "py_isspace c =
     (let n = (of_char c :: nat)
      in (9 \<le> n \<and> n \<le> 13) \<or> (28 \<le> n \<and> n \<le> 32) \<or> n = 133 \<or> n = 160)"

definition py_isdigit :: "char \<Rightarrow> bool" where
  \<comment> \<open>the characters matched by \<^verbatim>\<open>\d\<close>\<close>
  "py_isdigit c = (let n = (of_char c :: nat) in 48 \<le> n \<and> n \<le> 57)"

definition py_isword :: "char \<Rightarrow> bool" where
  \<comment> \<open>the characters matched by \<^verbatim>\<open>\w\<close>: alphanumeric or the underscore\<close>
  "py_isword c =
     (let n = (of_char c :: nat)
      in (48 \<le> n \<and> n \<le> 57) \<or> (65 \<le> n \<and> n \<le> 90) \<or> n = 95 \<or> (97 \<le> n \<and> n \<le> 122)
         \<or> n = 170 \<or> n = 178 \<or> n = 179 \<or> n = 181 \<or> n = 185 \<or> n = 186
         \<or> (188 \<le> n \<and> n \<le> 190) \<or> (192 \<le> n \<and> n \<le> 214) \<or> (216 \<le> n \<and> n \<le> 246)
         \<or> (248 \<le> n \<and> n \<le> 255))"

definition py_lower_char :: "char \<Rightarrow> char" where
  "py_lower_char c =
     (let n = (of_char c :: nat)
      in if (65 \<le> n \<and> n \<le> 90) \<or> (192 \<le> n \<and> n \<le> 214) \<or> (216 \<le> n \<and> n \<le> 222)
         then char_of (n + 32) else c)"

definition lower :: "string \<Rightarrow> string" where
  \<comment> \<open>\<^verbatim>\<open>str.lower()\<close>\<close>
  "lower s = map py_lower_char s"

definition lstrip :: "string \<Rightarrow> string" where
  "lstrip s = dropWhile py_isspace s"

definition rstrip :: "string \<Rightarrow> string" where
  \<comment> \<open>\<^verbatim>\<open>str.rstrip()\<close>\<close>
  "rstrip s = rev (dropWhile py_isspace (rev s))"

definition strip :: "string \<Rightarrow> string" where
  \<comment> \<open>\<^verbatim>\<open>str.strip()\<close>\<close>
  "strip s = rstrip (lstrip s)"

definition rstrip_chr :: "char \<Rightarrow> string \<Rightarrow> string" where
  \<comment> \<open>\<^verbatim>\<open>s.rstrip(c)\<close> for a one-character argument\<close>
  "rstrip_chr c s = rev (dropWhile (\<lambda>x. x = c) (rev s))"

definition startswith :: "string \<Rightarrow> string \<Rightarrow> bool" where
  \<comment> \<open>\<^verbatim>\<open>s.startswith(p)\<close>\<close>
  "startswith s p = (take (length p) s = p)"

definition endswith :: "string \<Rightarrow> string \<Rightarrow> bool" where
  \<comment> \<open>\<^verbatim>\<open>s.endswith(p)\<close>\<close>
  "endswith s p = (length p \<le> length s \<and> drop (length s - length p) s = p)"

definition count_chr :: "string \<Rightarrow> char \<Rightarrow> int" where
  \<comment> \<open>\<^verbatim>\<open>s.count(c)\<close> for a one-character argument\<close>
  "count_chr s c = int (length (filter (\<lambda>x. x = c) s))"

definition remove_chr :: "char \<Rightarrow> string \<Rightarrow> string" where
  \<comment> \<open>\<^verbatim>\<open>s.replace(c, '')\<close> for a one-character argument\<close>
  "remove_chr c s = filter (\<lambda>x. x \<noteq> c) s"

fun join :: "string \<Rightarrow> string list \<Rightarrow> string" where
  \<comment> \<open>\<^verbatim>\<open>sep.join(xs)\<close>\<close>
  "join sep [] = []"
| "join sep [x] = x"
| "join sep (x # y # ys) = x @ sep @ join sep (y # ys)"

fun split_chr :: "char \<Rightarrow> string \<Rightarrow> string list" where
  \<comment> \<open>\<^verbatim>\<open>s.split(c)\<close> for a one-character separator: never the empty list\<close>
  "split_chr c [] = [[]]"
| "split_chr c (x # xs) =
     (if x = c then [] # split_chr c xs
      else (case split_chr c xs of [] \<Rightarrow> [[x]] | p # ps \<Rightarrow> (x # p) # ps))"

fun find_chr :: "char \<Rightarrow> string \<Rightarrow> int" where
  \<comment> \<open>\<^verbatim>\<open>s.find(c)\<close>: the index of the first occurrence, or -1\<close>
  "find_chr c [] = - 1"
| "find_chr c (x # xs) =
     (if x = c then 0 else (let k = find_chr c xs in if k < 0 then - 1 else k + 1))"

definition slice_from :: "int \<Rightarrow> string \<Rightarrow> string" where
  \<comment> \<open>\<^verbatim>\<open>s[k:]\<close> for \<open>k \<ge> 0\<close>\<close>
  "slice_from k s = drop (nat k) s"

definition slice_inner :: "string \<Rightarrow> string" where
  \<comment> \<open>\<^verbatim>\<open>s[1:-1]\<close>\<close>
  "slice_inner s = take (length s - 2) (drop 1 s)"

section \<open>Regular expressions of the \<^verbatim>\<open>re\<close> module\<close>

text \<open>
  The patterns of the analyzer are built from one-character classes, greedy and lazy
  repetition of a class, sequence, alternation, capture groups, a lookahead and the two
  anchors. \<open>rmatch\<close> lists the ways a pattern matches at a position in the order
  in which the backtracking matcher of \<^verbatim>\<open>re\<close> tries them, so the head of the list is
  the match \<^verbatim>\<open>re\<close> reports. A matcher state is the position, the text from that
  position on and the groups captured so far.
\<close>

datatype rx =
    Eps
  | Cls "char \<Rightarrow> bool"
  | Star "char \<Rightarrow> bool"
  | Lazy "char \<Rightarrow> bool"
  | Seq rx rx
  | Alt rx rx
  | Grp nat rx
  | Ahead rx
  | Caret
  | Dollar

type_synonym groups = "(nat \<times> string) list"
type_synonym mstate = "nat \<times> string \<times> groups"

fun greedy_ends :: "(char \<Rightarrow> bool) \<Rightarrow> nat \<Rightarrow> string \<Rightarrow> (nat \<times> string) list" where
  \<comment> \<open>\<^verbatim>\<open>c*\<close>: the longest run first, then shorter ones\<close>
  "greedy_ends p i [] = [(i, [])]"
| "greedy_ends p i (c # cs) =
     (if p c then greedy_ends p (Suc i) cs @ [(i, c # cs)] else [(i, c # cs)])"

fun lazy_ends :: "(char \<Rightarrow> bool) \<Rightarrow> nat \<Rightarrow> string \<Rightarrow> (nat \<times> string) list" where
  \<comment> \<open>\<^verbatim>\<open>c*?\<close>: the empty run first, then longer ones\<close>
  "lazy_ends p i [] = [(i, [])]"
| "lazy_ends p i (c # cs) =
     (i, c # cs) # (if p c then lazy_ends p (Suc i) cs else [])"

fun rmatch :: "rx \<Rightarrow> mstate \<Rightarrow> mstate list" where
  "rmatch Eps st = [st]"
| "rmatch (Cls p) (i, s, g) =
     (case s of [] \<Rightarrow> [] | c # cs \<Rightarrow> if p c then [(Suc i, cs, g)] else [])"
| "rmatch (Star p) (i, s, g) = map (\<lambda>(j, t). (j, t, g)) (greedy_ends p i s)"
| "rmatch (Lazy p) (i, s, g) = map (\<lambda>(j, t). (j, t, g)) (lazy_ends p i s)"
| "rmatch (Seq a b) st = concat (map (rmatch b) (rmatch a st))"
| "rmatch (Alt a b) st = rmatch a st @ rmatch b st"
| "rmatch (Grp k a) (i, s, g) =
     map (\<lambda>(j, t, h). (j, t, (k, take (j - i) s) # h)) (rmatch a (i, s, g))"
| "rmatch (Ahead a) st = (if rmatch a st = [] then [] else [st])"
| "rmatch Caret (i, s, g) = (if i = 0 then [(i, s, g)] else [])"
| "rmatch Dollar (i, s, g) = (if s = [] \<or> s = [CHR 0x0A] then [(i, s, g)] else [])"

definition chr :: "char \<Rightarrow> rx" where
  \<comment> \<open>a literal character\<close>
  "chr c = Cls (\<lambda>x. x = c)"

definition chr_i :: "char \<Rightarrow> rx" where
  \<comment> \<open>a lowercase literal character under \<^verbatim>\<open>re.IGNORECASE\<close>\<close>
  "chr_i c = Cls (\<lambda>x. py_lower_char x = c)"

definition Plus :: "(char \<Rightarrow> bool) \<Rightarrow> rx" where
  \<comment> \<open>\<^verbatim>\<open>c+\<close>\<close>
  "Plus p = Seq (Cls p) (Star p)"

definition seqs :: "rx list \<Rightarrow> rx" where
  "seqs rs = foldr Seq rs Eps"

definition lit_i :: "string \<Rightarrow> rx" where
  \<comment> \<open>a lowercase literal text under \<^verbatim>\<open>re.IGNORECASE\<close>\<close>
  "lit_i s = seqs (map chr_i s)"

record rmatch_obj =
  m_start :: nat
  m_end :: nat
  m_text :: string
  m_rest :: string
  m_groups :: groups

fun search :: "rx \<Rightarrow> bool \<Rightarrow> nat \<Rightarrow> string \<Rightarrow> rmatch_obj option" where
  \<comment> \<open>the scan of \<^verbatim>\<open>re\<close> for the leftmost match from position \<open>i\<close>; with \<open>adv\<close>
      (after an empty match) an empty match at \<open>i\<close> itself is refused\<close>
  "search r adv i s =
     (case filter (\<lambda>(j, t, g). \<not> adv \<or> j \<noteq> i) (rmatch r (i, s, [])) of
        (j, t, g) # _ \<Rightarrow>
          Some \<lparr>m_start = i, m_end = j, m_text = take (j - i) s, m_rest = t, m_groups = g\<rparr>
      | [] \<Rightarrow> (case s of [] \<Rightarrow> None | c # cs \<Rightarrow> search r False (Suc i) cs))"

definition re_search :: "rx \<Rightarrow> string \<Rightarrow> rmatch_obj option" where
  \<comment> \<open>\<^verbatim>\<open>re.search(pattern, s)\<close>\<close>
  "re_search r s = search r False 0 s"

definition group :: "rmatch_obj \<Rightarrow> nat \<Rightarrow> string" where
  \<comment> \<open>\<^verbatim>\<open>match.group(k)\<close> as a text; the groups the analyzer reads from a match object
      are on every way through their patterns, so \<^verbatim>\<open>None\<close> does not arise there, and
      \<^verbatim>\<open>findall\<close> gives the empty text for a group that took no part\<close>
  "group m k = (case map_of (m_groups m) k of None \<Rightarrow> [] | Some t \<Rightarrow> t)"

text \<open>
  Every match ends at or after the position where it starts, inside the text it was
  searched in; the scans below terminate by these facts.
\<close>

lemma greedy_ends_suffix:
  "(j, t) \<in> set (greedy_ends p i s) \<Longrightarrow> \<exists>u. s = u @ t \<and> j = i + length u"
proof (induction s arbitrary: i)
  case Nil
  then show ?case by simp
next
  case (Cons c cs)
  then show ?case
    by (fastforce split: if_splits)
qed

lemma lazy_ends_suffix:
  "(j, t) \<in> set (lazy_ends p i s) \<Longrightarrow> \<exists>u. s = u @ t \<and> j = i + length u"
proof (induction s arbitrary: i)
  case Nil
  then show ?case by simp
next
  case (Cons c cs)
  then show ?case
    by (fastforce split: if_splits)
qed

lemma rmatch_suffix:
  "(j, t, h) \<in> set (rmatch r (i, s, g)) \<Longrightarrow> \<exists>u. s = u @ t \<and> j = i + length u"
proof (induction r arbitrary: i s g j t h)
  case (Cls p)
  then show ?case by (auto split: list.splits if_splits)
next
  case (Star p)
  then show ?case by (auto dest: greedy_ends_suffix)
next
  case (Lazy p)
  then show ?case by (auto dest: lazy_ends_suffix)
next
  case (Seq a b)
  from Seq.prems obtain j' t' h' where
    a: "(j', t', h') \<in> set (rmatch a (i, s, g))" and b: "(j, t, h) \<in> set (rmatch b (j', t', h'))"
    by auto
  from Seq.IH(1)[OF a] obtain u where u: "s = u @ t'" "j' = i + length u" by blast
  from Seq.IH(2)[OF b] obtain v where v: "t' = v @ t" "j = j' + length v" by blast
  from u v have "s = (u @ v) @ t \<and> j = i + length (u @ v)" by simp
  then show ?case by blast
next
  case (Alt a b)
  then show ?case by auto
next
  case (Grp k a)
  then show ?case by auto
next
  case (Ahead a)
  then show ?case by (auto split: if_splits)
qed (auto split: if_splits)

lemma search_shape:
  "search r adv i s = Some m \<Longrightarrow>
     \<exists>u v. s = u @ v @ m_rest m \<and> m_start m = i + length u \<and> m_end m = m_start m + length v
       \<and> m_text m = v \<and> (adv \<and> u = [] \<longrightarrow> v \<noteq> [])"
proof (induction r adv i s rule: search.induct)
  case (1 r adv i s)
  show ?case
  proof (cases "filter (\<lambda>(j, t, g). \<not> adv \<or> j \<noteq> i) (rmatch r (i, s, []))")
    case Nil
    with "1.prems" obtain c cs where s: "s = c # cs" and rec: "search r False (Suc i) cs = Some m"
      by (auto split: list.splits)
    from "1.IH"[OF Nil s rec] obtain u v where
      "cs = u @ v @ m_rest m" "m_start m = Suc i + length u" "m_end m = m_start m + length v"
      "m_text m = v"
      by blast
    with s have "s = (c # u) @ v @ m_rest m \<and> m_start m = i + length (c # u)
        \<and> m_end m = m_start m + length v \<and> m_text m = v \<and> (adv \<and> c # u = [] \<longrightarrow> v \<noteq> [])"
      by simp
    then show ?thesis by blast
  next
    case (Cons x xs)
    obtain j t g where x: "x = (j, t, g)" by (cases x)
    from Cons x "1.prems"
    have m: "m = \<lparr>m_start = i, m_end = j, m_text = take (j - i) s, m_rest = t, m_groups = g\<rparr>"
      by simp
    have "x \<in> set (filter (\<lambda>(j, t, g). \<not> adv \<or> j \<noteq> i) (rmatch r (i, s, [])))"
      using Cons by simp
    with x have mem: "(j, t, g) \<in> set (rmatch r (i, s, []))" and adv: "\<not> adv \<or> j \<noteq> i"
      by auto
    from rmatch_suffix[OF mem] obtain v where v: "s = v @ t" "j = i + length v" by blast
    with m adv have "s = [] @ v @ m_rest m \<and> m_start m = i + length ([]::string)
        \<and> m_end m = m_start m + length v \<and> m_text m = v \<and> (adv \<and> ([]::string) = [] \<longrightarrow> v \<noteq> [])"
      by auto
    then show ?thesis by blast
  qed
qed

function finditer :: "rx \<Rightarrow> bool \<Rightarrow> nat \<Rightarrow> string \<Rightarrow> rmatch_obj list" where
  \<comment> \<open>the loop shared by \<^verbatim>\<open>findall\<close>, \<^verbatim>\<open>sub\<close> and \<^verbatim>\<open>split\<close>: the next scan starts where
      the last match ended\<close>
  "finditer r adv i s =
     (case search r adv i s of
        None \<Rightarrow> []
      | Some m \<Rightarrow> m # finditer r (m_end m = m_start m) (m_end m) (m_rest m))"
  by pat_completeness auto
termination
proof (relation "measure (\<lambda>(r, adv, i, s). 2 * length s + (if adv then 0 else 1))", goal_cases)
  case 1
  then show ?case by simp
next
  case (2 r adv i s m)
  from search_shape[OF 2] obtain u v where
    "s = u @ v @ m_rest m" "m_start m = i + length u" "m_end m = m_start m + length v"
    "adv \<and> u = [] \<longrightarrow> v \<noteq> []"
    by blast
  then show ?case by (cases u; cases v; auto)
qed

fun gaps :: "nat \<Rightarrow> string \<Rightarrow> rmatch_obj list \<Rightarrow> string list" where
  \<comment> \<open>the pieces of the text between the matches; \<open>s\<close> is the text from position \<open>i\<close>\<close>
  "gaps i s [] = [s]"
| "gaps i s (m # ms) = take (m_start m - i) s # gaps (m_end m) (m_rest m) ms"

definition re_findall2 :: "rx \<Rightarrow> string \<Rightarrow> (string \<times> string) list" where
  \<comment> \<open>\<^verbatim>\<open>re.findall(pattern, s)\<close> for a pattern with two groups\<close>
  "re_findall2 r s = map (\<lambda>m. (group m 1, group m 2)) (finditer r False 0 s)"

definition re_sub :: "rx \<Rightarrow> string \<Rightarrow> string \<Rightarrow> string" where
  \<comment> \<open>\<^verbatim>\<open>re.sub(pattern, repl, s)\<close> for a replacement without group references\<close>
  "re_sub r repl s = join repl (gaps 0 s (finditer r False 0 s))"

definition re_split :: "rx \<Rightarrow> string \<Rightarrow> string list" where
  \<comment> \<open>\<^verbatim>\<open>re.split(pattern, s)\<close> for a pattern without groups\<close>
  "re_split r s = gaps 0 s (finditer r False 0 s)"

section \<open>The patterns of the analyzer\<close>

definition any_chr :: "char \<Rightarrow> bool" where
  \<comment> \<open>\<^verbatim>\<open>.\<close> under \<^verbatim>\<open>re.DOTALL\<close>\<close>
  "any_chr c = True"

definition start_pattern :: rx where
  \<comment> \<open>\<^verbatim>\<open>@(\w+)\s*{\<close>\<close>
  "start_pattern = seqs [chr CHR ''@'', Grp 1 (Plus py_isword), Star py_isspace, chr CHR ''{'']"

definition key_pattern :: rx where
  \<comment> \<open>\<^verbatim>\<open>{([^,]+)\<close>\<close>
  "key_pattern = seqs [chr CHR ''{'', Grp 1 (Plus (\<lambda>c. c \<noteq> CHR '',''))]"

definition field_pattern :: rx where
  \<comment> \<open>\<^verbatim>\<open>(\w+)\s*=\s*({.*?}|".*?"|.*?)(?=\s*\w+\s*=|\s*}\s*$)\<close> under
      \<^verbatim>\<open>re.DOTALL | re.IGNORECASE\<close>\<close>
  "field_pattern = seqs
     [Grp 1 (Plus py_isword), Star py_isspace, chr CHR ''='', Star py_isspace,
      Grp 2 (Alt (seqs [chr CHR ''{'', Lazy any_chr, chr CHR ''}''])
            (Alt (seqs [chr CHR 0x22, Lazy any_chr, chr CHR 0x22])
                 (Lazy any_chr))),
      Ahead (Alt (seqs [Star py_isspace, Plus py_isword, Star py_isspace, chr CHR ''=''])
                 (seqs [Star py_isspace, chr CHR ''}'', Star py_isspace, Dollar]))]"

definition and_pattern :: rx where
  \<comment> \<open>\<^verbatim>\<open>\sand\s\<close> under \<^verbatim>\<open>re.IGNORECASE\<close>\<close>
  "and_pattern = seqs [Cls py_isspace, lit_i ''and'', Cls py_isspace]"

definition spaces_pattern :: rx where
  \<comment> \<open>\<^verbatim>\<open>\s+\<close>\<close>
  "spaces_pattern = Plus py_isspace"

definition proceedings_pattern :: rx where
  \<comment> \<open>\<^verbatim>\<open>^proceedings of\s*\<close> under \<^verbatim>\<open>re.IGNORECASE\<close>\<close>
  "proceedings_pattern = seqs [Caret, lit_i ''proceedings of'', Star py_isspace]"

definition the_pattern :: rx where
  \<comment> \<open>\<^verbatim>\<open>^the\s+\<close> under \<^verbatim>\<open>re.IGNORECASE\<close>\<close>
  "the_pattern = seqs [Caret, lit_i ''the'', Plus py_isspace]"

definition year_pattern :: rx where
  \<comment> \<open>\<^verbatim>\<open>\d{4}\<close>\<close>
  "year_pattern = seqs (replicate 4 (Cls py_isdigit))"

section \<open>Entries and dictionaries\<close>

datatype py_error = TypeError | IndexError

fun dict_set :: "('k \<times> 'v) list \<Rightarrow> 'k \<Rightarrow> 'v \<Rightarrow> ('k \<times> 'v) list" where
  \<comment> \<open>\<^verbatim>\<open>d[k] = v\<close>: a present key keeps its place, a new key goes last\<close>
  "dict_set [] k v = [(k, v)]"
| "dict_set ((k', v') # d) k v =
     (if k' = k then (k', v) # d else (k', v') # dict_set d k v)"

definition dict_get :: "('k \<times> 'v) list \<Rightarrow> 'k \<Rightarrow> 'v \<Rightarrow> 'v" where
  \<comment> \<open>\<^verbatim>\<open>d.get(k, default)\<close>, and \<^verbatim>\<open>c[k]\<close> of a \<^verbatim>\<open>Counter\<close> with default 0\<close>
  "dict_get d k dflt = (case map_of d k of None \<Rightarrow> dflt | Some v \<Rightarrow> v)"

text \<open>
  An entry is the dictionary with the keys \<^verbatim>\<open>type\<close>, \<^verbatim>\<open>key\<close>, \<^verbatim>\<open>fields\<close> (here
  \<open>fields_d\<close>) and \<^verbatim>\<open>raw\<close> that \<^verbatim>\<open>parse_bibtex_file\<close> builds.
\<close>

record entry =
  type :: string
  key :: string
  fields_d :: "(string \<times> string) list"
  raw :: "string list"

section \<open>\<^verbatim>\<open>parse_entry_fields\<close>\<close>

definition clean_value :: "string \<Rightarrow> string" where
  \<comment> \<open>the clean-up of one matched value in the loop of \<^verbatim>\<open>parse_entry_fields\<close>\<close>
  "clean_value field_value0 =
     (let field_value = strip field_value0;
          field_value =
            (if startswith field_value ''{'' \<and> endswith field_value ''}''
             then slice_inner field_value
             else if startswith field_value [CHR 0x22] \<and> endswith field_value [CHR 0x22]
             then slice_inner field_value
             else field_value);
          field_value = rstrip_chr CHR '','' field_value
      in strip field_value)"

definition parse_entry_fields :: "string \<Rightarrow> py_error + (string \<times> string) list" where
  "parse_entry_fields entry_text =
     (let lines = split_chr CHR 0x0A entry_text
      in case (if length lines > 1 then Inr (join [CHR 0x0A] (drop 1 lines))
               else (case lines of
                       [] \<Rightarrow> Inl IndexError
                     | l # _ \<Rightarrow> Inr (slice_from (find_chr CHR '','' l + 1) l))) of
           Inl e \<Rightarrow> Inl e
         | Inr content \<Rightarrow>
             Inr (foldl (\<lambda>fields (field_name, field_value).
                           dict_set fields (strip (lower field_name)) (clean_value field_value))
                        [] (re_findall2 field_pattern content)))"

section \<open>\<^verbatim>\<open>parse_bibtex_file\<close>\<close>

record pstate =
  entries :: "entry list"
  current_entry :: "entry option"
  entry_content :: "string list"
  in_entry :: bool

definition brace_count :: "string \<Rightarrow> int" where
  \<comment> \<open>\<^verbatim>\<open>line.count('{') - line.count('}')\<close>\<close>
  "brace_count line = count_chr line CHR ''{'' - count_chr line CHR ''}''"

definition process_line :: "pstate \<Rightarrow> string \<Rightarrow> py_error + pstate" where
  \<comment> \<open>one turn of the loop over the lines of the file\<close>
  "process_line st line0 =
     (let line = strip line0
      in if line = [] \<or> startswith line ''%'' then Inr st
         else if \<not> in_entry st \<and> CHR ''@'' \<in> set line then
           (case re_search start_pattern line of
              None \<Rightarrow> Inr st
            | Some m \<Rightarrow>
                (let entry_type = lower (group m 1);
                     entry_key = (case re_search key_pattern line of
                                    Some key_match \<Rightarrow> group key_match 1
                                  | None \<Rightarrow> ''unknown'');
                     cur = \<lparr>type = entry_type, key = entry_key, fields_d = [], raw = []\<rparr>
                 in if CHR ''}'' \<in> set line \<and> count_chr line CHR ''{'' \<le> count_chr line CHR ''}''
                    then Inr (st\<lparr>in_entry := False,
                                 current_entry := Some (cur\<lparr>raw := [line]\<rparr>),
                                 entry_content := [line],
                                 entries := entries st @ [cur\<lparr>raw := [line]\<rparr>]\<rparr>)
                    else Inr (st\<lparr>in_entry := True,
                                 current_entry := Some cur,
                                 entry_content := [line]\<rparr>)))
         else if in_entry st then
           (let content = entry_content st @ [line]
            in if CHR ''}'' \<in> set line \<and> brace_count line \<le> 0 \<and> endswith (rstrip line) ''}''
               then (case parse_entry_fields (join [CHR 0x0A] content) of
                       Inl e \<Rightarrow> Inl e
                     | Inr parsed_fields \<Rightarrow>
                         (case current_entry st of
                            None \<Rightarrow> Inl TypeError
                          | Some cur \<Rightarrow>
                              Inr (st\<lparr>in_entry := False,
                                      entry_content := content,
                                      current_entry := Some (cur\<lparr>fields_d := parsed_fields\<rparr>),
                                      entries := entries st @ [cur\<lparr>fields_d := parsed_fields\<rparr>]\<rparr>)))
               else Inr (st\<lparr>entry_content := content\<rparr>))
         else Inr st)"

fun process_lines :: "pstate \<Rightarrow> string list \<Rightarrow> py_error + pstate" where
  "process_lines st [] = Inr st"
| "process_lines st (l # ls) =
     (case process_line st l of Inl e \<Rightarrow> Inl e | Inr st' \<Rightarrow> process_lines st' ls)"

definition init_state :: pstate where
  "init_state = \<lparr>entries = [], current_entry = None, entry_content = [], in_entry = False\<rparr>"

definition parse_bibtex_file :: "string list \<Rightarrow> py_error + entry list" where
  \<comment> \<open>the argument is the list of lines read from the file\<close>
  "parse_bibtex_file lines =
     (case process_lines init_state lines of Inl e \<Rightarrow> Inl e | Inr st \<Rightarrow> Inr (entries st))"

section \<open>\<^verbatim>\<open>extract_authors\<close> and \<^verbatim>\<open>extract_venue_info\<close>\<close>

definition clean_author :: "string \<Rightarrow> string" where
  \<comment> \<open>the clean-up of one author in the loop of \<^verbatim>\<open>extract_authors\<close>\<close>
  "clean_author author0 =
     (let author = strip author0;
          author = re_sub spaces_pattern '' '' author
      in remove_chr CHR ''}'' (remove_chr CHR ''{'' author))"

definition extract_authors :: "string \<Rightarrow> string list" where
  "extract_authors author_field =
     (if author_field = [] then []
      else filter (\<lambda>author. author \<noteq> [])
             (map clean_author (re_split and_pattern author_field)))"

definition py_or :: "string \<Rightarrow> string \<Rightarrow> string" where
  \<comment> \<open>\<^verbatim>\<open>a or b\<close> on strings\<close>
  "py_or a b = (if a \<noteq> [] then a else b)"

definition extract_venue_info :: "entry \<Rightarrow> string \<times> string" where
  "extract_venue_info entry =
     (let fields = fields_d entry;
          journal = py_or (dict_get fields ''journal'' []) (dict_get fields ''journaltitle'' []);
          conference = py_or (dict_get fields ''booktitle'' []) (dict_get fields ''conference'' []);
          journal =
            (if journal \<noteq> [] then
               (let journal = remove_chr CHR ''}'' (remove_chr CHR ''{'' journal);
                    journal = re_sub proceedings_pattern [] journal
                in re_sub the_pattern [] journal)
             else journal);
          conference =
            (if conference \<noteq> [] then
               (let conference = remove_chr CHR ''}'' (remove_chr CHR ''{'' conference)
                in re_sub proceedings_pattern [] conference)
             else conference)
      in (strip journal, strip conference))"

section \<open>\<^verbatim>\<open>calculate_statistics\<close> and \<^verbatim>\<open>analyze_files\<close>\<close>

type_synonym counter = "(string \<times> int) list"

definition counter_incr :: "counter \<Rightarrow> string \<Rightarrow> counter" where
  \<comment> \<open>\<^verbatim>\<open>c[k] += 1\<close> on a \<^verbatim>\<open>Counter\<close>\<close>
  "counter_incr c k = dict_set c k (dict_get c k 0 + 1)"

record stats =
  total_entries :: int
  entry_types :: counter
  authors :: counter
  journals :: counter
  conferences :: counter
  years :: counter

definition count_entry :: "stats \<Rightarrow> entry \<Rightarrow> stats" where
  \<comment> \<open>one turn of the loop over the entries\<close>
  "count_entry st0 entry =
     (let st = st0\<lparr>entry_types := counter_incr (entry_types st0) (type entry)\<rparr>;
          author_field = dict_get (fields_d entry) ''author'' [];
          st = (if author_field \<noteq> []
                then st\<lparr>authors := foldl counter_incr (authors st) (extract_authors author_field)\<rparr>
                else st);
          (journal, conference) = extract_venue_info entry;
          st = (if journal \<noteq> [] then st\<lparr>journals := counter_incr (journals st) journal\<rparr> else st);
          st = (if conference \<noteq> []
                then st\<lparr>conferences := counter_incr (conferences st) conference\<rparr> else st);
          year = dict_get (fields_d entry) ''year'' []
      in if year \<noteq> [] then
           (case re_search year_pattern year of
              Some year_match \<Rightarrow> st\<lparr>years := counter_incr (years st) (m_text year_match)\<rparr>
            | None \<Rightarrow> st)
         else st)"

definition calculate_statistics :: "entry list \<Rightarrow> stats" where
  "calculate_statistics es =
     foldl count_entry
       \<lparr>total_entries = int (length es), entry_types = [], authors = [], journals = [],
        conferences = [], years = []\<rparr> es"

fun parse_files :: "string list list \<Rightarrow> py_error + entry list" where
  \<comment> \<open>the loop of \<^verbatim>\<open>analyze_files\<close>: the entries of all files, in the order of the files\<close>
  "parse_files [] = Inr []"
| "parse_files (f # fs) =
     (case parse_bibtex_file f of
        Inl e \<Rightarrow> Inl e
      | Inr es \<Rightarrow> (case parse_files fs of Inl e \<Rightarrow> Inl e | Inr all_entries \<Rightarrow> Inr (es @ all_entries)))"

definition analyze_files :: "string list list \<Rightarrow> py_error + stats" where
  \<comment> \<open>each file is given as the list of its lines\<close>
  "analyze_files files =
     (case parse_files files of Inl e \<Rightarrow> Inl e | Inr all_entries \<Rightarrow> Inr (calculate_statistics all_entries))"

section \<open>Predicates used in the properties\<close>

definition all_positive :: "counter \<Rightarrow> bool" where
  "all_positive c = (\<forall>n \<in> snd ` set c. 1 \<le> n)"

definition positive_counts :: "stats \<Rightarrow> bool" where
  "positive_counts st =
     (all_positive (entry_types st) \<and> all_positive (authors st) \<and> all_positive (journals st)
      \<and> all_positive (conferences st) \<and> all_positive (years st))"

definition year_entry :: entry where
  \<comment> \<open>a sample entry carrying a year only\<close>
  "year_entry = \<lparr>type = ''article'', key = ''k1'', fields_d = [(''year'', ''1999'')], raw = []\<rparr>"

definition ci_prefix :: "string \<Rightarrow> string \<Rightarrow> bool" where
  \<comment> \<open>the text \<open>s\<close> starts with \<open>w\<close> when case is ignored (\<open>w\<close> in lowercase)\<close>
  "ci_prefix w s = (length w \<le> length s \<and> map py_lower_char (take (length w) s) = w)"

definition four_digits :: "string \<Rightarrow> bool" where
  \<comment> \<open>the text starts with four decimal digits\<close>
  "four_digits s = (4 \<le> length s \<and> list_all py_isdigit (take 4 s))"

fun key_start :: "string \<Rightarrow> bool" where
  \<comment> \<open>the text starts with an opening brace followed by a character other than a comma\<close>
  "key_start (x # c # cs) = (x = CHR ''{'' \<and> c \<noteq> CHR '','')"
| "key_start _ = False"

definition strip_proceedings :: "string \<Rightarrow> string" where
  \<comment> \<open>drop a leading "proceedings of", in any case, and the whitespace after it\<close>
  "strip_proceedings s =
     (if ci_prefix ''proceedings of'' s then lstrip (drop (length ''proceedings of'') s) else s)"

definition strip_the :: "string \<Rightarrow> string" where
  \<comment> \<open>drop a leading "the", in any case, when whitespace follows, with that whitespace\<close>
  "strip_the s =
     (if ci_prefix ''the'' s \<and> (case drop (length ''the'') s of [] \<Rightarrow> False | c # _ \<Rightarrow> py_isspace c)
      then lstrip (drop (length ''the'') s) else s)"

definition skipped :: "string \<Rightarrow> bool" where
  \<comment> \<open>a trimmed line that the loop passes over: blank, or a comment\<close>
  "skipped line = (line = [] \<or> startswith line ''%'')"

definition closes :: "string \<Rightarrow> bool" where
  \<comment> \<open>the three conditions under which a trimmed line ends the open entry\<close>
  "closes line =
     (CHR ''}'' \<in> set line \<and> brace_count line \<le> 0 \<and> endswith (rstrip line) ''}'')"

definition is_start_line :: "string \<Rightarrow> bool" where
  \<comment> \<open>a trimmed line that opens an entry when none is open\<close>
  "is_start_line line =
     (\<not> skipped line \<and> CHR ''@'' \<in> set line \<and> re_search start_pattern line \<noteq> None)"

definition closes_on_start :: "string \<Rightarrow> bool" where
  \<comment> \<open>the condition under which the start line also ends its entry\<close>
  "closes_on_start line =
     (CHR ''}'' \<in> set line \<and> count_chr line CHR ''{'' \<le> count_chr line CHR ''}'')"

definition state_ok :: "pstate \<Rightarrow> bool" where
  \<comment> \<open>inside an entry there is a current entry\<close>
  "state_ok st = (in_entry st \<longrightarrow> current_entry st \<noteq> None)"

definition entry_key :: "string \<Rightarrow> string" where
  \<comment> \<open>the key taken from a start line\<close>
  "entry_key line =
     (case re_search key_pattern line of Some key_match \<Rightarrow> group key_match 1 | None \<Rightarrow> ''unknown'')"

definition wrapped_in :: "char \<Rightarrow> char \<Rightarrow> string \<Rightarrow> bool" where
  \<comment> \<open>a value of at least two characters between an opening and a closing delimiter\<close>
  "wrapped_in l r v = (2 \<le> length v \<and> hd v = l \<and> last v = r)"

definition already_normalized :: "string \<Rightarrow> bool" where
  \<comment> \<open>trimmed, no trailing comma, not wrapped in matching braces or matching quotes\<close>
  "already_normalized v =
     (strip v = v \<and> \<not> endswith v '','' \<and> \<not> wrapped_in CHR ''{'' CHR ''}'' v
      \<and> \<not> wrapped_in CHR 0x22 CHR 0x22 v)"

definition booktitle_entry :: entry where
  \<comment> \<open>a sample entry with a booktitle\<close>
  "booktitle_entry = \<lparr>type = ''inproceedings'', key = ''k2'',
     fields_d = [(''booktitle'', ''Proceedings of the International Conference on Foo'')], raw = []\<rparr>"

definition journal_entry :: entry where
  \<comment> \<open>a sample entry with a journal\<close>
  "journal_entry = \<lparr>type = ''article'', key = ''k1'',
     fields_d = [(''journal'', ''The Journal of Bar'')], raw = []\<rparr>"

definition year_of :: "string \<Rightarrow> entry" where
  \<comment> \<open>a sample entry carrying the given year value only\<close>
  "year_of y = \<lparr>type = ''article'', key = ''k1'', fields_d = [(''year'', y)], raw = []\<rparr>"

definition open_state :: pstate where
  \<comment> \<open>the state of the loop after the line \<^verbatim>\<open>@article{k,\<close>\<close>
  "open_state = \<lparr>entries = [],
     current_entry = Some \<lparr>type = ''article'', key = ''k'', fields_d = [], raw = []\<rparr>,
     entry_content = [''@article{k,''], in_entry = True\<rparr>"

definition closed_state :: pstate where
  \<comment> \<open>the state of the loop after the one-line entry \<^verbatim>\<open>@misc{a, x = {1}}\<close>\<close>
  "closed_state = \<lparr>entries = [\<lparr>type = ''misc'', key = ''a'', fields_d = [], raw = [''@misc{a, x = {1}}'']\<rparr>],
     current_entry = Some \<lparr>type = ''misc'', key = ''a'', fields_d = [], raw = [''@misc{a, x = {1}}'']\<rparr>,
     entry_content = [''@misc{a, x = {1}}''], in_entry = False\<rparr>"

section \<open>Counters\<close>

lemma dict_get_Cons:
  "dict_get ((k', v') # d) k dflt = (if k' = k then v' else dict_get d k dflt)"
  by (simp add: dict_get_def)

lemma sum_dict_set:
  "sum_list (map snd (dict_set c k v)) = sum_list (map snd c) - dict_get c k 0 + (v::int)"
  by (induction c) (auto simp: dict_get_Cons dict_get_def)

lemma sum_counter_incr:
  "sum_list (map snd (counter_incr c k)) = sum_list (map snd c) + 1"
  by (simp add: counter_incr_def sum_dict_set)

lemma keys_dict_set: "fst ` set (dict_set c k v) = insert k (fst ` set c)"
proof (induction c)
  case Nil
  then show ?case by simp
next
  case (Cons a c)
  obtain k' v' where a: "a = (k', v')" by (cases a)
  show ?case
  proof (cases "k' = k")
    case True
    with a show ?thesis by simp
  next
    case False
    with a Cons.IH show ?thesis by (simp add: insert_commute)
  qed
qed

lemma distinct_dict_set:
  "distinct (map fst c) \<Longrightarrow> distinct (map fst (dict_set c k v))"
proof (induction c)
  case Nil
  then show ?case by simp
next
  case (Cons a c)
  obtain k' v' where a: "a = (k', v')" by (cases a)
  show ?case
  proof (cases "k' = k")
    case True
    with a Cons.prems show ?thesis by simp
  next
    case False
    from Cons.prems a have "k' \<notin> fst ` set c" by simp
    with False have "k' \<notin> fst ` set (dict_set c k v)" by (simp add: keys_dict_set)
    moreover from Cons have "distinct (map fst (dict_set c k v))" by simp
    ultimately show ?thesis using a False by simp
  qed
qed

lemma distinct_counter_incr:
  "distinct (map fst c) \<Longrightarrow> distinct (map fst (counter_incr c k))"
  by (simp add: counter_incr_def distinct_dict_set)

lemma values_dict_set: "snd ` set (dict_set c k v) \<subseteq> insert v (snd ` set c)"
proof (induction c)
  case Nil
  then show ?case by simp
next
  case (Cons a c)
  obtain k' v' where a: "a = (k', v')" by (cases a)
  show ?case
  proof (cases "k' = k")
    case True
    with a show ?thesis by auto
  next
    case False
    with a Cons.IH show ?thesis by auto
  qed
qed

lemma dict_get_nonneg: "all_positive c \<Longrightarrow> 0 \<le> dict_get c k 0"
proof (induction c)
  case Nil
  then show ?case by (simp add: dict_get_def)
next
  case (Cons a c)
  obtain k' v' where a: "a = (k', v')" by (cases a)
  from Cons.prems a have "1 \<le> v'" "all_positive c" by (simp_all add: all_positive_def)
  with Cons.IH a show ?case by (simp add: dict_get_Cons)
qed

lemma counter_incr_positive:
  assumes "all_positive c"
  shows "all_positive (counter_incr c k)"
proof -
  have v: "1 \<le> dict_get c k 0 + 1" using dict_get_nonneg[OF assms, of k] by simp
  have "1 \<le> n" if "n \<in> snd ` set (dict_set c k (dict_get c k 0 + 1))" for n
  proof -
    from that values_dict_set[of c k "dict_get c k 0 + 1"]
    have "n = dict_get c k 0 + 1 \<or> n \<in> snd ` set c" by (meson insertE subsetD)
    with v assms show ?thesis unfolding all_positive_def by (elim disjE) auto
  qed
  then show ?thesis unfolding counter_incr_def all_positive_def by simp
qed

lemma foldl_counter_incr_positive:
  "all_positive c \<Longrightarrow> all_positive (foldl counter_incr c ks)"
  by (induction ks arbitrary: c) (simp_all add: counter_incr_positive)

lemma label_count:
  "l \<in> fst ` set c \<Longrightarrow> dict_get c l dflt \<in> snd ` set c"
proof (induction c)
  case Nil
  then show ?case by simp
next
  case (Cons a c)
  obtain k v where a: "a = (k, v)" by (cases a)
  show ?case
  proof (cases "k = l")
    case True
    with a show ?thesis by (simp add: dict_get_Cons)
  next
    case False
    with Cons a show ?thesis by (auto simp: dict_get_Cons)
  qed
qed

lemma sum_over_labels:
  "distinct (map fst c) \<Longrightarrow> (\<Sum>l \<in> fst ` set c. dict_get c l (0::int)) = sum_list (map snd c)"
proof (induction c)
  case Nil
  then show ?case by simp
next
  case (Cons a c)
  obtain k v where a: "a = (k, v)" by (cases a)
  from Cons.prems a have notin: "k \<notin> fst ` set c" and d: "distinct (map fst c)" by auto
  have "(\<Sum>l \<in> fst ` set c. dict_get ((k, v) # c) l (0::int)) = (\<Sum>l \<in> fst ` set c. dict_get c l 0)"
    using notin by (intro sum.cong) (auto simp: dict_get_Cons)
  with Cons.IH[OF d] notin a show ?case
    by (simp add: dict_get_Cons)
qed

lemma count_entry_types:
  "entry_types (count_entry st e) = counter_incr (entry_types st) (type e)"
  by (simp add: count_entry_def Let_def split: prod.splits option.splits)

lemma count_entry_total: "total_entries (count_entry st e) = total_entries st"
  by (simp add: count_entry_def Let_def split: prod.splits option.splits)

lemma foldl_count_entry_types:
  "total_entries (foldl count_entry st es) = total_entries st
   \<and> sum_list (map snd (entry_types (foldl count_entry st es)))
       = sum_list (map snd (entry_types st)) + int (length es)
   \<and> (distinct (map fst (entry_types st))
        \<longrightarrow> distinct (map fst (entry_types (foldl count_entry st es))))"
proof (induction es arbitrary: st)
  case Nil
  then show ?case by simp
next
  case (Cons e es)
  show ?case
    using Cons.IH[of "count_entry st e"]
    by (simp add: count_entry_types count_entry_total sum_counter_incr distinct_counter_incr)
qed

lemma count_entry_positive:
  assumes "positive_counts st"
  shows "positive_counts (count_entry st e)"
proof -
  from assms have p: "all_positive (entry_types st)" "all_positive (authors st)"
    "all_positive (journals st)" "all_positive (conferences st)" "all_positive (years st)"
    by (simp_all add: positive_counts_def)
  obtain journal conference where v: "extract_venue_info e = (journal, conference)"
    by (cases "extract_venue_info e")
  show ?thesis
    unfolding positive_counts_def count_entry_def Let_def v
    using p by (simp add: counter_incr_positive foldl_counter_incr_positive split: option.splits)
qed

lemma foldl_count_entry_positive:
  "positive_counts st \<Longrightarrow> positive_counts (foldl count_entry st es)"
  by (induction es arbitrary: st) (simp_all add: count_entry_positive)

lemma year_entry_statistics:
  "calculate_statistics [year_entry] =
     \<lparr>total_entries = 1, entry_types = [(''article'', 1)], authors = [], journals = [],
      conferences = [], years = [(''1999'', 1)]\<rparr>"
  by code_simp

section \<open>Matches of the patterns\<close>

text \<open>
  A group is recorded on every way through its pattern, so the groups read from a match of
  the start pattern and of the key pattern are always there.
\<close>

lemma rmatch_groups_grow:
  "(j, t, h) \<in> set (rmatch r (i, s, g)) \<Longrightarrow> \<exists>h'. h = h' @ g"
proof (induction r arbitrary: i s g j t h)
  case (Cls p)
  then show ?case by (auto split: list.splits if_splits)
next
  case (Seq a b)
  from Seq.prems obtain j' t' h' where
    a: "(j', t', h') \<in> set (rmatch a (i, s, g))" and b: "(j, t, h) \<in> set (rmatch b (j', t', h'))"
    by auto
  from Seq.IH(1)[OF a] obtain x where "h' = x @ g" by blast
  moreover from Seq.IH(2)[OF b] obtain y where "h = y @ h'" by blast
  ultimately have "h = (y @ x) @ g" by simp
  then show ?case by blast
next
  case (Alt a b)
  then show ?case by auto
next
  case (Grp k a)
  from Grp.prems obtain h0 where
    a: "(j, t, h0) \<in> set (rmatch a (i, s, g))" and h: "h = (k, take (j - i) s) # h0"
    by auto
  from Grp.IH[OF a] obtain x where "h0 = x @ g" by blast
  with h have "h = ((k, take (j - i) s) # x) @ g" by simp
  then show ?case by blast
qed (auto split: if_splits)

lemma group_after_Grp:
  assumes "(j, t, h) \<in> set (rmatch (Seq a (Seq (Grp k b) c)) st)"
  shows "k \<in> fst ` set h"
proof -
  obtain i s g where st: "st = (i, s, g)" by (cases st)
  from assms st obtain j1 t1 h1 j2 t2 h2 where
    "(j1, t1, h1) \<in> set (rmatch a (i, s, g))"
    and g: "(j2, t2, h2) \<in> set (rmatch (Grp k b) (j1, t1, h1))"
    and c: "(j, t, h) \<in> set (rmatch c (j2, t2, h2))"
    by auto
  from g have "k \<in> fst ` set h2" by auto
  moreover from rmatch_groups_grow[OF c] obtain x where "h = x @ h2" by blast
  ultimately show ?thesis by auto
qed

lemma search_outcome:
  "search r adv i s = Some m \<Longrightarrow>
     \<exists>k u. (m_end m, m_rest m, m_groups m) \<in> set (rmatch r (k, u, []))"
proof (induction r adv i s rule: search.induct)
  case (1 r adv i s)
  show ?case
  proof (cases "filter (\<lambda>(j, t, g). \<not> adv \<or> j \<noteq> i) (rmatch r (i, s, []))")
    case Nil
    with "1.prems" obtain c cs where s: "s = c # cs" and rec: "search r False (Suc i) cs = Some m"
      by (auto split: list.splits)
    from "1.IH"[OF Nil s rec] show ?thesis .
  next
    case (Cons x xs)
    obtain j t g where x: "x = (j, t, g)" by (cases x)
    from Cons x "1.prems"
    have m: "m = \<lparr>m_start = i, m_end = j, m_text = take (j - i) s, m_rest = t, m_groups = g\<rparr>"
      by simp
    have "x \<in> set (filter (\<lambda>(j, t, g). \<not> adv \<or> j \<noteq> i) (rmatch r (i, s, [])))"
      using Cons by simp
    with x m have "(m_end m, m_rest m, m_groups m) \<in> set (rmatch r (i, s, []))" by simp
    then show ?thesis by blast
  qed
qed

lemma start_group_present:
  assumes "re_search start_pattern s = Some m"
  shows "map_of (m_groups m) 1 \<noteq> None"
proof -
  from search_outcome[OF assms[unfolded re_search_def]] obtain k u where
    "(m_end m, m_rest m, m_groups m) \<in> set (rmatch start_pattern (k, u, []))" by blast
  then have "1 \<in> fst ` set (m_groups m)"
    unfolding start_pattern_def seqs_def foldr.simps o_apply by (rule group_after_Grp)
  then show ?thesis by (simp add: map_of_eq_None_iff)
qed

lemma key_group_present:
  assumes "re_search key_pattern s = Some m"
  shows "map_of (m_groups m) 1 \<noteq> None"
proof -
  from search_outcome[OF assms[unfolded re_search_def]] obtain k u where
    "(m_end m, m_rest m, m_groups m) \<in> set (rmatch key_pattern (k, u, []))" by blast
  then have "1 \<in> fst ` set (m_groups m)"
    unfolding key_pattern_def seqs_def foldr.simps o_apply by (rule group_after_Grp)
  then show ?thesis by (simp add: map_of_eq_None_iff)
qed

lemma search_hit:
  "rmatch r (i, s, []) = (j, t, g) # xs \<Longrightarrow>
     search r False i s = Some \<lparr>m_start = i, m_end = j, m_text = take (j - i) s, m_rest = t, m_groups = g\<rparr>"
  by simp

lemma search_miss_Cons:
  "rmatch r (i, c # cs, []) = [] \<Longrightarrow> search r adv i (c # cs) = search r False (Suc i) cs"
  by simp

lemma search_miss_Nil:
  "rmatch r (i, [], []) = [] \<Longrightarrow> search r adv i [] = None"
  by simp

lemma search_skip:
  "(\<And>k. k < length pre \<Longrightarrow> rmatch r (i + k, drop k (pre @ s), []) = []) \<Longrightarrow>
     search r False i (pre @ s) = search r False (i + length pre) s"
proof (induction pre arbitrary: i)
  case Nil
  then show ?case by simp
next
  case (Cons c pre)
  from Cons.prems[of 0] have h: "rmatch r (i, c # pre @ s, []) = []" by simp
  have "search r False (Suc i) (pre @ s) = search r False (Suc i + length pre) s"
  proof (rule Cons.IH)
    fix k assume "k < length pre"
    with Cons.prems[of "Suc k"] show "rmatch r (Suc i + k, drop k (pre @ s), []) = []" by simp
  qed
  with h show ?case by (simp del: search.simps add: search_miss_Cons)
qed

lemma search_none:
  "(\<And>k. k \<le> length s \<Longrightarrow> rmatch r (i + k, drop k s, []) = []) \<Longrightarrow> search r False i s = None"
proof (induction s arbitrary: i)
  case Nil
  from Nil[of 0] show ?case by simp
next
  case (Cons c s)
  from Cons.prems[of 0] have h: "rmatch r (i, c # s, []) = []" by simp
  have "search r False (Suc i) s = None"
  proof (rule Cons.IH)
    fix k assume "k \<le> length s"
    with Cons.prems[of "Suc k"] show "rmatch r (Suc i + k, drop k s, []) = []" by simp
  qed
  with h show ?case by (simp del: search.simps add: search_miss_Cons)
qed

lemma greedy_ends_hd:
  "\<exists>xs. greedy_ends p i s = (i + length (takeWhile p s), dropWhile p s) # xs"
proof (induction s arbitrary: i)
  case Nil
  then show ?case by simp
next
  case (Cons c cs)
  show ?case
  proof (cases "p c")
    case True
    from Cons[of "Suc i"] obtain xs where
      "greedy_ends p (Suc i) cs = (Suc i + length (takeWhile p cs), dropWhile p cs) # xs" by blast
    with True show ?thesis by simp
  next
    case False
    then show ?thesis by simp
  qed
qed

lemma rmatch_Plus_hit:
  "p c \<Longrightarrow> \<exists>xs. rmatch (Plus p) (i, c # cs, g)
      = (i + length (takeWhile p (c # cs)), dropWhile p (c # cs), g) # xs"
proof -
  assume c: "p c"
  from greedy_ends_hd[of p "Suc i" cs] obtain xs where
    "greedy_ends p (Suc i) cs = (Suc i + length (takeWhile p cs), dropWhile p cs) # xs" by blast
  with c show ?thesis by (simp add: Plus_def)
qed

lemma rmatch_Plus_miss:
  "s = [] \<or> \<not> p (hd s) \<Longrightarrow> rmatch (Plus p) (i, s, g) = []"
  by (cases s) (auto simp: Plus_def)

lemma rmatch_classes:
  "rmatch (foldr Seq (replicate n (Cls p)) Eps) (i, s, g)
     = (if n \<le> length s \<and> list_all p (take n s) then [(i + n, drop n s, g)] else [])"
proof (induction n arbitrary: i s)
  case 0
  then show ?case by simp
next
  case (Suc n)
  show ?case
  proof (cases s)
    case Nil
    then show ?thesis by simp
  next
    case (Cons c cs)
    with Suc[of "Suc i" cs] show ?thesis by simp
  qed
qed

lemma rmatch_year:
  "rmatch year_pattern (i, s, g) = (if four_digits s then [(i + 4, drop 4 s, g)] else [])"
  unfolding year_pattern_def seqs_def four_digits_def by (rule rmatch_classes)

lemma rmatch_lit_i:
  "rmatch (Seq (lit_i w) r) (i, s, g)
     = (if ci_prefix w s then rmatch r (i + length w, drop (length w) s, g) else [])"
proof (induction w arbitrary: i s)
  case Nil
  then show ?case by (simp add: lit_i_def seqs_def ci_prefix_def)
next
  case (Cons a w)
  have unf: "lit_i (a # w) = Seq (chr_i a) (lit_i w)" by (simp add: lit_i_def seqs_def)
  show ?case
  proof (cases s)
    case Nil
    then show ?thesis by (simp add: unf chr_i_def ci_prefix_def)
  next
    case (Cons c cs)
    from Cons.IH[of "Suc i" cs] show ?thesis
      unfolding unf Cons by (auto simp add: chr_i_def ci_prefix_def)
  qed
qed

lemma rmatch_key_hit:
  assumes "c \<noteq> CHR '',''"
  shows "\<exists>xs. rmatch key_pattern (i, CHR ''{'' # c # cs, g)
      = (Suc i + length (takeWhile (\<lambda>x. x \<noteq> CHR '','') (c # cs)),
         dropWhile (\<lambda>x. x \<noteq> CHR '','') (c # cs),
         (1, takeWhile (\<lambda>x. x \<noteq> CHR '','') (c # cs)) # g) # xs"
proof -
  let ?p = "\<lambda>x. x \<noteq> CHR '',''"
  from rmatch_Plus_hit[of ?p c "Suc i" cs g] assms obtain xs where
    "rmatch (Plus ?p) (Suc i, c # cs, g)
       = (Suc i + length (takeWhile ?p (c # cs)), dropWhile ?p (c # cs), g) # xs" by blast
  with assms show ?thesis
    by (simp add: key_pattern_def seqs_def chr_def takeWhile_eq_take[symmetric])
qed

lemma rmatch_key_miss:
  assumes "\<not> key_start s"
  shows "rmatch key_pattern (i, s, g) = []"
proof (cases s)
  case Nil
  then show ?thesis by (simp add: key_pattern_def seqs_def chr_def)
next
  case (Cons x t)
  show ?thesis
  proof (cases "x = CHR ''{''")
    case False
    with Cons show ?thesis by (simp add: key_pattern_def seqs_def chr_def)
  next
    case True
    from assms Cons True have "t = [] \<or> \<not> (hd t \<noteq> CHR '','')" by (cases t) auto
    then have "rmatch (Plus (\<lambda>x. x \<noteq> CHR '','')) (Suc i, t, g) = []"
      by (rule rmatch_Plus_miss)
    with Cons True show ?thesis by (simp add: key_pattern_def seqs_def chr_def)
  qed
qed

lemma key_search_hit:
  assumes line: "line = pre @ CHR ''{'' # k @ rest"
    and k: "k \<noteq> []" "CHR '','' \<notin> set k"
    and rest: "rest = [] \<or> hd rest = CHR '',''"
    and first: "\<And>j. j < length pre \<Longrightarrow> \<not> key_start (drop j line)"
  shows "\<exists>m. re_search key_pattern line = Some m \<and> group m 1 = k"
proof -
  let ?p = "\<lambda>x. x \<noteq> CHR '',''"
  from k obtain c cs where kc: "k = c # cs" by (cases k) auto
  with k have c: "c \<noteq> CHR '',''" by auto
  have tw: "takeWhile ?p (k @ rest) = k"
    using k(2) rest by (cases rest) (auto simp: takeWhile_append2 takeWhile_tail)
  have skip: "search key_pattern False 0 (pre @ CHR ''{'' # k @ rest)
      = search key_pattern False (0 + length pre) (CHR ''{'' # k @ rest)"
  proof (rule search_skip)
    fix j assume "j < length pre"
    with first[of j] line show "rmatch key_pattern (0 + j, drop j (pre @ CHR ''{'' # k @ rest), []) = []"
      by (simp add: rmatch_key_miss)
  qed
  from rmatch_key_hit[OF c, of "length pre" "cs @ rest" "[]"] kc tw obtain xs where
    "rmatch key_pattern (length pre, CHR ''{'' # k @ rest, [])
       = (Suc (length pre) + length k, dropWhile ?p (k @ rest), (1, k) # []) # xs"
    by auto
  from search_hit[OF this] skip line show ?thesis
    by (simp add: re_search_def group_def del: search.simps)
qed

lemma key_search_miss:
  assumes "\<And>j. j \<le> length line \<Longrightarrow> \<not> key_start (drop j line)"
  shows "re_search key_pattern line = None"
  unfolding re_search_def
proof (rule search_none)
  fix k assume "k \<le> length line"
  with assms[of k] show "rmatch key_pattern (0 + k, drop k line, []) = []"
    by (simp add: rmatch_key_miss)
qed

lemma year_search_hit:
  assumes "four_digits (drop i y)" "\<And>j. j < i \<Longrightarrow> \<not> four_digits (drop j y)"
  shows "\<exists>m. re_search year_pattern y = Some m \<and> m_text m = take 4 (drop i y)"
proof -
  from assms(1) have len: "i < length y" by (auto simp: four_digits_def)
  have y: "y = take i y @ drop i y" by simp
  have skip: "search year_pattern False 0 (take i y @ drop i y)
      = search year_pattern False (0 + length (take i y)) (drop i y)"
  proof (rule search_skip)
    fix j assume "j < length (take i y)"
    then have "j < i" by simp
    with assms(2)[of j] show "rmatch year_pattern (0 + j, drop j (take i y @ drop i y), []) = []"
      by (simp add: rmatch_year)
  qed
  from assms(1) have "rmatch year_pattern (i, drop i y, []) = (i + 4, drop 4 (drop i y), []) # []"
    by (simp add: rmatch_year)
  from search_hit[OF this] skip len show ?thesis
    by (simp add: re_search_def min_def del: search.simps)
qed

lemma year_search_miss:
  assumes "\<And>j. \<not> four_digits (drop j y)"
  shows "re_search year_pattern y = None"
  unfolding re_search_def
proof (rule search_none)
  fix k assume "k \<le> length y"
  from assms[of k] show "rmatch year_pattern (0 + k, drop k y, []) = []"
    by (simp add: rmatch_year)
qed

lemma search_caret_pos: "0 < i \<Longrightarrow> search (Seq Caret r) adv i s = None"
  by (induction s arbitrary: i adv) simp_all

lemma finditer_caret_miss:
  assumes "rmatch r (0, s, []) = []"
  shows "finditer (Seq Caret r) False 0 s = []"
proof -
  have "search (Seq Caret r) False 0 s = None"
  proof (cases s)
    case Nil
    with assms show ?thesis by simp
  next
    case (Cons c cs)
    have "search (Seq Caret r) False (Suc 0) cs = None" by (rule search_caret_pos) simp
    with assms Cons show ?thesis by (simp del: search.simps add: search_miss_Cons)
  qed
  then show ?thesis by (subst finditer.simps) simp
qed

lemma finditer_caret_hit:
  assumes "rmatch r (0, s, []) = (j, t, g) # xs" "0 < j"
  shows "finditer (Seq Caret r) False 0 s
     = [\<lparr>m_start = 0, m_end = j, m_text = take j s, m_rest = t, m_groups = g\<rparr>]"
proof -
  from assms(1) have "rmatch (Seq Caret r) (0, s, []) = (j, t, g) # xs" by simp
  from search_hit[OF this]
  have s: "search (Seq Caret r) False 0 s
     = Some \<lparr>m_start = 0, m_end = j, m_text = take j s, m_rest = t, m_groups = g\<rparr>"
    by (simp del: search.simps)
  have n: "search (Seq Caret r) False j t = None" using assms(2) by (rule search_caret_pos)
  have "finditer (Seq Caret r) False j t = []"
    by (subst finditer.simps) (simp del: search.simps add: n)
  with s assms(2) show ?thesis
    by (subst finditer.simps) (simp del: search.simps)
qed

lemma rmatch_Star_last:
  "\<exists>xs. rmatch (Seq (Star p) Eps) (i, s, g) = (i + length (takeWhile p s), dropWhile p s, g) # xs"
proof -
  from greedy_ends_hd[of p i s] obtain xs where
    "greedy_ends p i s = (i + length (takeWhile p s), dropWhile p s) # xs" by blast
  then show ?thesis by simp
qed

lemma rmatch_Plus_last_hit:
  assumes "p c"
  shows "\<exists>xs. rmatch (Seq (Plus p) Eps) (i, c # cs, g)
      = (i + length (takeWhile p (c # cs)), dropWhile p (c # cs), g) # xs"
proof -
  from rmatch_Plus_hit[of p c i cs g] assms obtain xs where
    "rmatch (Plus p) (i, c # cs, g) = (i + length (takeWhile p (c # cs)), dropWhile p (c # cs), g) # xs"
    by blast
  then show ?thesis by simp
qed

lemma re_sub_caret_lit_star:
  assumes "w \<noteq> []"
  shows "re_sub (Seq Caret (Seq (lit_i w) (Seq (Star p) Eps))) [] s
     = (if ci_prefix w s then dropWhile p (drop (length w) s) else s)"
proof -
  let ?r = "Seq (lit_i w) (Seq (Star p) Eps)"
  show ?thesis
  proof (cases "ci_prefix w s")
    case False
    then have "rmatch ?r (0, s, []) = []" by (simp only: rmatch_lit_i if_False)
    from finditer_caret_miss[OF this] False show ?thesis by (simp add: re_sub_def)
  next
    case True
    from rmatch_Star_last[of p "0 + length w" "drop (length w) s" "[]"] obtain xs where
      "rmatch (Seq (Star p) Eps) (0 + length w, drop (length w) s, [])
         = (0 + length w + length (takeWhile p (drop (length w) s)),
            dropWhile p (drop (length w) s), []) # xs"
      by blast
    with True have "rmatch ?r (0, s, [])
         = (0 + length w + length (takeWhile p (drop (length w) s)),
            dropWhile p (drop (length w) s), []) # xs"
      by (simp only: rmatch_lit_i if_True)
    moreover have "0 < 0 + length w + length (takeWhile p (drop (length w) s))"
      using assms by simp
    ultimately have "finditer (Seq Caret ?r) False 0 s
        = [\<lparr>m_start = 0, m_end = 0 + length w + length (takeWhile p (drop (length w) s)),
            m_text = take (0 + length w + length (takeWhile p (drop (length w) s))) s,
            m_rest = dropWhile p (drop (length w) s), m_groups = []\<rparr>]"
      by (rule finditer_caret_hit)
    with True show ?thesis by (simp add: re_sub_def)
  qed
qed

lemma re_sub_caret_lit_plus:
  assumes "w \<noteq> []"
  shows "re_sub (Seq Caret (Seq (lit_i w) (Seq (Plus p) Eps))) [] s
     = (if ci_prefix w s \<and> (case drop (length w) s of [] \<Rightarrow> False | c # _ \<Rightarrow> p c)
        then dropWhile p (drop (length w) s) else s)"
proof -
  let ?r = "Seq (lit_i w) (Seq (Plus p) Eps)"
  show ?thesis
  proof (cases "ci_prefix w s")
    case False
    then have "rmatch ?r (0, s, []) = []" by (simp only: rmatch_lit_i if_False)
    from finditer_caret_miss[OF this] False show ?thesis by (simp add: re_sub_def)
  next
    case True
    show ?thesis
    proof (cases "drop (length w) s")
      case Nil
      have "rmatch (Plus p) (0 + length w, [], []) = []" by (intro rmatch_Plus_miss) simp
      then have "rmatch (Seq (Plus p) Eps) (0 + length w, drop (length w) s, []) = []"
        unfolding Nil by simp
      with True have "rmatch ?r (0, s, []) = []" by (simp only: rmatch_lit_i if_True)
      from finditer_caret_miss[OF this] Nil show ?thesis by (simp add: re_sub_def)
    next
      case (Cons c cs)
      show ?thesis
      proof (cases "p c")
        case False
        then have "rmatch (Plus p) (0 + length w, c # cs, []) = []"
          by (intro rmatch_Plus_miss) simp
        then have "rmatch (Seq (Plus p) Eps) (0 + length w, drop (length w) s, []) = []"
          unfolding Cons by simp
        with True have "rmatch ?r (0, s, []) = []" by (simp only: rmatch_lit_i if_True)
        from finditer_caret_miss[OF this] Cons False show ?thesis by (simp add: re_sub_def)
      next
        case sp: True
        from rmatch_Plus_last_hit[of p c "0 + length w" cs "[]"] sp obtain xs where
          "rmatch (Seq (Plus p) Eps) (0 + length w, c # cs, [])
             = (0 + length w + length (takeWhile p (c # cs)), dropWhile p (c # cs), []) # xs"
          by blast
        with True Cons have "rmatch ?r (0, s, [])
             = (0 + length w + length (takeWhile p (c # cs)), dropWhile p (c # cs), []) # xs"
          by (simp only: rmatch_lit_i if_True)
        moreover have "0 < 0 + length w + length (takeWhile p (c # cs))"
          using assms by simp
        ultimately have "finditer (Seq Caret ?r) False 0 s
            = [\<lparr>m_start = 0, m_end = 0 + length w + length (takeWhile p (c # cs)),
                m_text = take (0 + length w + length (takeWhile p (c # cs))) s,
                m_rest = dropWhile p (c # cs), m_groups = []\<rparr>]"
          by (rule finditer_caret_hit)
        with True Cons sp show ?thesis by (simp add: re_sub_def)
      qed
    qed
  qed
qed

lemma re_sub_proceedings:
  "re_sub proceedings_pattern [] s
     = (if ci_prefix ''proceedings of'' s
        then dropWhile py_isspace (drop (length ''proceedings of'') s) else s)"
  unfolding proceedings_pattern_def seqs_def foldr.simps o_apply id_apply
  by (rule re_sub_caret_lit_star) simp

lemma re_sub_the:
  "re_sub the_pattern [] s
     = (if ci_prefix ''the'' s
           \<and> (case drop (length ''the'') s of [] \<Rightarrow> False | c # _ \<Rightarrow> py_isspace c)
        then dropWhile py_isspace (drop (length ''the'') s) else s)"
  unfolding the_pattern_def seqs_def foldr.simps o_apply id_apply
  by (rule re_sub_caret_lit_plus) simp

lemma key_start_hd: "key_start s \<Longrightarrow> s \<noteq> [] \<and> hd s = CHR ''{''"
proof (cases s)
  case Nil
  assume "key_start s"
  with Nil show ?thesis by simp
next
  case (Cons x t)
  assume "key_start s"
  with Cons show ?thesis by (cases t) auto
qed

section \<open>Venue names and years\<close>

lemma strip_lstrip: "strip (lstrip s) = strip s"
  by (simp add: strip_def lstrip_def)

lemma strip_proceedings_eq: "strip_proceedings s = re_sub proceedings_pattern [] s"
  unfolding re_sub_proceedings strip_proceedings_def lstrip_def ..

lemma strip_the_eq: "strip_the s = re_sub the_pattern [] s"
  unfolding re_sub_the strip_the_def lstrip_def ..

lemma strip_Nil: "strip [] = []"
  by (simp add: strip_def rstrip_def lstrip_def)

lemma fst_venue:
  "fst (extract_venue_info e)
     = strip (strip_the (strip_proceedings (remove_chr CHR ''}'' (remove_chr CHR ''{''
         (py_or (dict_get (fields_d e) ''journal'' []) (dict_get (fields_d e) ''journaltitle'' []))))))"
proof -
  have "strip_the (strip_proceedings (remove_chr CHR ''}'' (remove_chr CHR ''{'' []))) = []"
    by (simp add: strip_the_def strip_proceedings_def remove_chr_def ci_prefix_def)
  then show ?thesis
    by (simp add: extract_venue_info_def Let_def strip_proceedings_eq strip_the_eq)
qed

lemma snd_venue:
  "snd (extract_venue_info e)
     = strip (strip_proceedings (remove_chr CHR ''}'' (remove_chr CHR ''{''
         (py_or (dict_get (fields_d e) ''booktitle'' []) (dict_get (fields_d e) ''conference'' [])))))"
proof -
  have "strip_proceedings (remove_chr CHR ''}'' (remove_chr CHR ''{'' [])) = []"
    by (simp add: strip_proceedings_def remove_chr_def ci_prefix_def)
  then show ?thesis
    by (simp add: extract_venue_info_def Let_def strip_proceedings_eq)
qed

lemma years_count_entry:
  "years (count_entry st e) =
     (if dict_get (fields_d e) ''year'' [] \<noteq> [] then
        (case re_search year_pattern (dict_get (fields_d e) ''year'' []) of
           Some year_match \<Rightarrow> counter_incr (years st) (m_text year_match)
         | None \<Rightarrow> years st)
      else years st)"
  by (simp add: count_entry_def Let_def split: prod.splits option.splits)

section \<open>Cleaning a value\<close>

lemma startswith_chr: "startswith v [c] = (v \<noteq> [] \<and> hd v = c)"
  by (cases v) (auto simp: startswith_def)

lemma endswith_chr: "endswith v [c] = (v \<noteq> [] \<and> last v = c)"
proof (cases v rule: rev_cases)
  case Nil
  then show ?thesis by (simp add: endswith_def)
next
  case (snoc ys y)
  then show ?thesis by (auto simp: endswith_def)
qed

lemma rstrip_chr_id: "\<not> endswith v [c] \<Longrightarrow> rstrip_chr c v = v"
proof (cases v rule: rev_cases)
  case Nil
  then show ?thesis by (simp add: rstrip_chr_def)
next
  case (snoc ys y)
  assume "\<not> endswith v [c]"
  with snoc have "y \<noteq> c" by (simp add: endswith_chr)
  with snoc show ?thesis by (simp add: rstrip_chr_def)
qed

lemma clean_value_id:
  assumes "already_normalized v" "v \<noteq> [CHR 0x22]"
  shows "clean_value v = v"
proof -
  from assms(1) have s: "strip v = v" and c: "\<not> endswith v '',''"
    and b: "\<not> wrapped_in CHR ''{'' CHR ''}'' v" and q: "\<not> wrapped_in CHR 0x22 CHR 0x22 v"
    by (simp_all add: already_normalized_def)
  have nb: "\<not> (startswith v ''{'' \<and> endswith v ''}'')"
  proof
    assume h: "startswith v ''{'' \<and> endswith v ''}''"
    then have v: "v \<noteq> []" "hd v = CHR ''{''" "last v = CHR ''}''"
      by (simp_all add: startswith_chr endswith_chr)
    then have "2 \<le> length v" by (cases v; cases "tl v") auto
    with v b show False by (simp add: wrapped_in_def)
  qed
  have nq: "\<not> (startswith v [CHR 0x22] \<and> endswith v [CHR 0x22])"
  proof
    assume h: "startswith v [CHR 0x22] \<and> endswith v [CHR 0x22]"
    then have v: "v \<noteq> []" "hd v = CHR 0x22" "last v = CHR 0x22"
      by (simp_all add: startswith_chr endswith_chr)
    with assms(2) have "2 \<le> length v" by (cases v; cases "tl v") auto
    with v q show False by (simp add: wrapped_in_def)
  qed
  from nb have "\<not> startswith v ''{'' \<or> \<not> endswith v ''}''" by simp
  moreover from nq have "\<not> startswith v [CHR 0x22] \<or> \<not> endswith v [CHR 0x22]" by simp
  ultimately show ?thesis using s c
    by (auto simp add: clean_value_def Let_def rstrip_chr_id)
qed

section \<open>The loop over the lines\<close>

lemma process_skipped: "skipped (strip l) \<Longrightarrow> process_line st l = Inr st"
  by (simp add: process_line_def skipped_def)

lemma process_start_line:
  assumes "\<not> in_entry st" "is_start_line (strip l)"
  shows "\<exists>m e. re_search start_pattern (strip l) = Some m
      \<and> e = \<lparr>type = lower (group m 1), key = entry_key (strip l), fields_d = [], raw = []\<rparr>
      \<and> process_line st l =
          Inr (if closes_on_start (strip l)
               then st\<lparr>in_entry := False, current_entry := Some (e\<lparr>raw := [strip l]\<rparr>),
                       entry_content := [strip l], entries := entries st @ [e\<lparr>raw := [strip l]\<rparr>]\<rparr>
               else st\<lparr>in_entry := True, current_entry := Some e, entry_content := [strip l]\<rparr>)"
proof -
  from assms(2) obtain m where m: "re_search start_pattern (strip l) = Some m"
    by (auto simp: is_start_line_def)
  from assms m show ?thesis
    by (simp add: process_line_def is_start_line_def skipped_def closes_on_start_def entry_key_def
        Let_def)
qed

lemma split_chr_nonempty: "split_chr c s \<noteq> []"
  by (induction s) (auto split: list.splits)

lemma parse_entry_fields_total: "\<exists>fs. parse_entry_fields s = Inr fs"
proof (cases "split_chr CHR 0x0A s")
  case Nil
  with split_chr_nonempty show ?thesis by blast
next
  case (Cons a list)
  then show ?thesis by (simp add: parse_entry_fields_def Let_def)
qed

lemma process_inside_keep:
  assumes "in_entry st" "\<not> skipped (strip l)" "\<not> closes (strip l)"
  shows "process_line st l = Inr (st\<lparr>entry_content := entry_content st @ [strip l]\<rparr>)"
  using assms by (auto simp: process_line_def skipped_def closes_def Let_def)

lemma process_inside_close:
  assumes "in_entry st" "current_entry st = Some cur" "\<not> skipped (strip l)" "closes (strip l)"
  shows "\<exists>parsed_fields.
      parse_entry_fields (join [CHR 0x0A] (entry_content st @ [strip l])) = Inr parsed_fields
      \<and> process_line st l =
          Inr (st\<lparr>in_entry := False, entry_content := entry_content st @ [strip l],
                  current_entry := Some (cur\<lparr>fields_d := parsed_fields\<rparr>),
                  entries := entries st @ [cur\<lparr>fields_d := parsed_fields\<rparr>]\<rparr>)"
proof -
  from parse_entry_fields_total obtain pf where
    pf: "parse_entry_fields (join [CHR 0x0A] (entry_content st @ [strip l])) = Inr pf" by blast
  with assms show ?thesis
    by (simp add: process_line_def skipped_def closes_def Let_def)
qed

lemma process_outside_other:
  assumes "\<not> in_entry st" "\<not> is_start_line (strip l)"
  shows "process_line st l = Inr st"
  using assms by (auto simp: process_line_def is_start_line_def skipped_def Let_def split: option.splits)

lemma process_lines_append:
  "process_lines st (xs @ ys) =
     (case process_lines st xs of Inl e \<Rightarrow> Inl e | Inr st' \<Rightarrow> process_lines st' ys)"
  by (induction xs arbitrary: st) (auto split: sum.splits)

lemma process_lines_keep:
  assumes "in_entry st" "\<forall>l \<in> set ls. skipped (strip l) \<or> \<not> closes (strip l)"
  shows "process_lines st ls =
     Inr (st\<lparr>entry_content := entry_content st @ filter (\<lambda>x. \<not> skipped x) (map strip ls)\<rparr>)"
  using assms
proof (induction ls arbitrary: st)
  case Nil
  then show ?case by simp
next
  case (Cons l ls)
  show ?case
  proof (cases "skipped (strip l)")
    case True
    with Cons show ?thesis by (simp add: process_skipped)
  next
    case False
    with Cons.prems have k: "process_line st l = Inr (st\<lparr>entry_content := entry_content st @ [strip l]\<rparr>)"
      by (simp add: process_inside_keep)
    from Cons.prems have
      "process_lines (st\<lparr>entry_content := entry_content st @ [strip l]\<rparr>) ls =
         Inr (st\<lparr>entry_content := entry_content st @ [strip l]\<rparr>
               \<lparr>entry_content := entry_content (st\<lparr>entry_content := entry_content st @ [strip l]\<rparr>)
                   @ filter (\<lambda>x. \<not> skipped x) (map strip ls)\<rparr>)"
      by (intro Cons.IH) simp_all
    with k False show ?thesis by simp
  qed
qed

lemma process_line_total:
  assumes "state_ok st"
  shows "\<exists>st'. process_line st l = Inr st' \<and> state_ok st'"
proof (cases "skipped (strip l)")
  case True
  with assms show ?thesis by (simp add: process_skipped)
next
  case ns: False
  show ?thesis
  proof (cases "in_entry st")
    case True
    with assms obtain cur where cur: "current_entry st = Some cur" by (auto simp: state_ok_def)
    show ?thesis
    proof (cases "closes (strip l)")
      case c: True
      from process_inside_close[OF True cur ns c] show ?thesis by (auto simp: state_ok_def)
    next
      case False
      from process_inside_keep[OF True ns False] assms show ?thesis by (simp add: state_ok_def)
    qed
  next
    case out: False
    show ?thesis
    proof (cases "is_start_line (strip l)")
      case True
      from process_start_line[OF out True] show ?thesis by (auto simp: state_ok_def)
    next
      case False
      from process_outside_other[OF out False] assms show ?thesis by simp
    qed
  qed
qed

lemma process_lines_total:
  "state_ok st \<Longrightarrow> \<exists>st'. process_lines st ls = Inr st' \<and> state_ok st'"
proof (induction ls arbitrary: st)
  case Nil
  then show ?case by simp
next
  case (Cons l ls)
  from process_line_total[OF Cons.prems, of l] obtain st1 where
    "process_line st l = Inr st1" "state_ok st1" by blast
  with Cons.IH[of st1] show ?case by simp
qed

lemma parse_bibtex_file_total: "\<exists>es. parse_bibtex_file ls = Inr es"
proof -
  have "state_ok init_state" by (simp add: state_ok_def init_state_def)
  from process_lines_total[OF this, of ls] show ?thesis by (auto simp: parse_bibtex_file_def)
qed

lemma parse_files_total: "\<exists>es. parse_files fs = Inr es"
proof (induction fs)
  case Nil
  then show ?case by simp
next
  case (Cons f fs)
  with parse_bibtex_file_total[of f] show ?case by auto
qed

lemma entry_key_hit:
  assumes "line = pre @ CHR ''{'' # k @ rest" "k \<noteq> []" "CHR '','' \<notin> set k"
    "rest = [] \<or> hd rest = CHR '',''" "\<And>j. j < length pre \<Longrightarrow> \<not> key_start (drop j line)"
  shows "entry_key line = k"
proof -
  from key_search_hit[OF assms] obtain m where
    "re_search key_pattern line = Some m" "group m 1 = k" by blast
  then show ?thesis by (simp add: entry_key_def)
qed

lemma entry_key_miss:
  assumes "\<And>j. \<not> key_start (drop j line)"
  shows "entry_key line = ''unknown''"
proof -
  have "re_search key_pattern line = None" by (rule key_search_miss) (rule assms)
  then show ?thesis by (simp add: entry_key_def)
qed

lemma start_line_entry:
  assumes "\<not> in_entry st" "is_start_line (strip l)"
  shows "\<exists>st' e. process_line st l = Inr st' \<and> current_entry st' = Some e
      \<and> key e = entry_key (strip l)
      \<and> (if closes_on_start (strip l) then \<not> in_entry st' \<and> entries st' = entries st @ [e]
          else in_entry st' \<and> entries st' = entries st)"
proof -
  from process_start_line[OF assms] obtain m e where
    e: "e = \<lparr>type = lower (group m 1), key = entry_key (strip l), fields_d = [], raw = []\<rparr>"
    and p: "process_line st l =
          Inr (if closes_on_start (strip l)
               then st\<lparr>in_entry := False, current_entry := Some (e\<lparr>raw := [strip l]\<rparr>),
                       entry_content := [strip l], entries := entries st @ [e\<lparr>raw := [strip l]\<rparr>]\<rparr>
               else st\<lparr>in_entry := True, current_entry := Some e, entry_content := [strip l]\<rparr>)"
    by blast
  show ?thesis
  proof (cases "closes_on_start (strip l)")
    case True
    with p e show ?thesis by simp
  next
    case False
    with p e show ?thesis by simp
  qed
qed

lemma unterminated_entry_dropped:
  assumes "process_lines init_state pre = Inr st" "\<not> in_entry st"
    and "is_start_line (strip l)" "\<not> closes_on_start (strip l)"
    and "\<forall>x \<in> set rest. skipped (strip x) \<or> \<not> closes (strip x)"
  shows "parse_bibtex_file (pre @ l # rest) = Inr (entries st)"
proof -
  from process_start_line[OF assms(2,3)] assms(4) obtain e where
    s: "process_line st l = Inr (st\<lparr>in_entry := True, current_entry := Some e, entry_content := [strip l]\<rparr>)"
    by auto
  let ?st1 = "st\<lparr>in_entry := True, current_entry := Some e, entry_content := [strip l]\<rparr>"
  have "in_entry ?st1" by simp
  from process_lines_keep[OF this assms(5)]
  have "process_lines ?st1 rest =
     Inr (?st1\<lparr>entry_content := entry_content ?st1 @ filter (\<lambda>x. \<not> skipped x) (map strip rest)\<rparr>)" .
  with s assms(1) show ?thesis
    by (simp add: parse_bibtex_file_def process_lines_append)
qed

section \<open>Properties of the parser\<close>

text \<open>
  Claim C1: a valid one-line entry \<^verbatim>\<open>@TYPE{key, field=value, ...}\<close> yields exactly one
  entry with the lowercased type, the key and every field of the line. On the code the
  entry is produced with type and key, but its field mapping stays empty: the branch that
  closes an entry on its start line never calls \<^verbatim>\<open>parse_entry_fields\<close>, although that
  function has a branch for one-line texts and finds the field when it is called.
\<close>

theorem single_line_entry_gets_no_fields:
  "parse_bibtex_file [''@ARTICLE{k1, year = {1999}}''] =
     Inr [\<lparr>type = ''article'', key = ''k1'', fields_d = [],
           raw = [''@ARTICLE{k1, year = {1999}}'']\<rparr>]
   \<and> parse_entry_fields ''@ARTICLE{k1, year = {1999}}'' = Inr [(''year'', ''1999'')]"
  by code_simp

text \<open>
  Claim C2 as stated fails on comment lines: inside an entry the line \<^verbatim>\<open>%}\<close> contains a
  closing brace, has a non-positive brace balance and ends with a closing brace, yet it
  neither closes the entry nor is accumulated.
\<close>

theorem comment_line_does_not_close:
  "closes (strip ''%}'')
   \<and> process_lines init_state [''@article{k,''] = Inr open_state
   \<and> process_lines init_state [''@article{k,'', ''%}''] = Inr open_state
   \<and> in_entry open_state \<and> entry_content open_state = [''@article{k,'']"
  by code_simp

text \<open>
  Claim C2 (amended): inside a multi-line entry, blank lines and comment lines are passed
  over; among the other lines the entry is closed exactly at the first one that contains a
  closing brace, has a non-positive brace balance of its own and ends with a closing
  brace, and every other line before it is accumulated into the same entry.
\<close>

theorem entry_closes_at_first_closing_line:
  assumes "in_entry st" "current_entry st = Some cur"
    and "\<forall>x \<in> set ls. skipped (strip x) \<or> \<not> closes (strip x)"
    and "\<not> skipped (strip l)" "closes (strip l)"
  shows "process_lines st ls =
       Inr (st\<lparr>entry_content := entry_content st @ filter (\<lambda>x. \<not> skipped x) (map strip ls)\<rparr>)
     \<and> (\<exists>parsed_fields.
          parse_entry_fields (join [CHR 0x0A]
              (entry_content st @ filter (\<lambda>x. \<not> skipped x) (map strip ls) @ [strip l]))
            = Inr parsed_fields
          \<and> process_lines st (ls @ [l]) =
              Inr (st\<lparr>in_entry := False,
                      entry_content :=
                        entry_content st @ filter (\<lambda>x. \<not> skipped x) (map strip ls) @ [strip l],
                      current_entry := Some (cur\<lparr>fields_d := parsed_fields\<rparr>),
                      entries := entries st @ [cur\<lparr>fields_d := parsed_fields\<rparr>]\<rparr>))"
proof -
  let ?kept = "filter (\<lambda>x. \<not> skipped x) (map strip ls)"
  let ?st1 = "st\<lparr>entry_content := entry_content st @ ?kept\<rparr>"
  have k: "process_lines st ls = Inr ?st1" by (rule process_lines_keep[OF assms(1,3)])
  have i: "in_entry ?st1" "current_entry ?st1 = Some cur" using assms(1,2) by simp_all
  from process_inside_close[OF i assms(4,5)] obtain pf where
    pf: "parse_entry_fields (join [CHR 0x0A] (entry_content ?st1 @ [strip l])) = Inr pf"
    and c: "process_line ?st1 l =
          Inr (?st1\<lparr>in_entry := False, entry_content := entry_content ?st1 @ [strip l],
                  current_entry := Some (cur\<lparr>fields_d := pf\<rparr>),
                  entries := entries ?st1 @ [cur\<lparr>fields_d := pf\<rparr>]\<rparr>)"
    by blast
  from k c have "process_lines st (ls @ [l]) =
      Inr (st\<lparr>in_entry := False, entry_content := entry_content st @ ?kept @ [strip l],
              current_entry := Some (cur\<lparr>fields_d := pf\<rparr>),
              entries := entries st @ [cur\<lparr>fields_d := pf\<rparr>]\<rparr>)"
    by (simp add: process_lines_append)
  with k pf show ?thesis by auto
qed

theorem entry_closes_at_first_closing_line_witness:
  "in_entry open_state
   \<and> closes (strip ''}'') \<and> \<not> closes (strip ''x = {a'') \<and> skipped (strip ''% c }'')
   \<and> process_lines open_state [''x = {a'', '''', ''% c }'', ''}''] =
       Inr \<lparr>entries = [\<lparr>type = ''article'', key = ''k'', fields_d = [(''x'', ''{a'')], raw = []\<rparr>],
            current_entry = Some \<lparr>type = ''article'', key = ''k'', fields_d = [(''x'', ''{a'')], raw = []\<rparr>,
            entry_content = [''@article{k,'', ''x = {a'', ''}''], in_entry = False\<rparr>"
proof -
  let ?cur = "\<lparr>type = ''article'', key = ''k'', fields_d = [], raw = []\<rparr>"
  have h1: "in_entry open_state" by (simp add: open_state_def)
  have h2: "current_entry open_state = Some ?cur" by (simp add: open_state_def)
  have a: "\<not> closes (strip ''x = {a'')" by code_simp
  have b: "skipped (strip '''')" by code_simp
  have c: "skipped (strip ''% c }'')" by code_simp
  have h3: "\<forall>x \<in> set [''x = {a'', '''', ''% c }'']. skipped (strip x) \<or> \<not> closes (strip x)"
    using a b c by simp
  have h4: "\<not> skipped (strip ''}'')" by code_simp
  have h5: "closes (strip ''}'')" by code_simp
  have kept: "entry_content open_state @ filter (\<lambda>x. \<not> skipped x) (map strip [''x = {a'', '''', ''% c }''])
      @ [strip ''}''] = [''@article{k,'', ''x = {a'', ''}'']" by code_simp
  have pf: "parse_entry_fields (join [CHR 0x0A] [''@article{k,'', ''x = {a'', ''}'']) = Inr [(''x'', ''{a'')]"
    by code_simp
  from entry_closes_at_first_closing_line[OF h1 h2 h3 h4 h5] obtain parsed_fields where
    r1: "parse_entry_fields (join [CHR 0x0A]
        (entry_content open_state @ filter (\<lambda>x. \<not> skipped x) (map strip [''x = {a'', '''', ''% c }''])
          @ [strip ''}''])) = Inr parsed_fields"
    and r2: "process_lines open_state ([''x = {a'', '''', ''% c }''] @ [''}'']) =
       Inr (open_state\<lparr>in_entry := False,
              entry_content := entry_content open_state
                @ filter (\<lambda>x. \<not> skipped x) (map strip [''x = {a'', '''', ''% c }'']) @ [strip ''}''],
              current_entry := Some (?cur\<lparr>fields_d := parsed_fields\<rparr>),
              entries := entries open_state @ [?cur\<lparr>fields_d := parsed_fields\<rparr>]\<rparr>)"
    by blast
  from r1 have p: "parsed_fields = [(''x'', ''{a'')]" unfolding kept pf by simp
  have e: "open_state\<lparr>in_entry := False,
              entry_content := [''@article{k,'', ''x = {a'', ''}''],
              current_entry := Some (?cur\<lparr>fields_d := [(''x'', ''{a'')]\<rparr>),
              entries := entries open_state @ [?cur\<lparr>fields_d := [(''x'', ''{a'')]\<rparr>]\<rparr>
      = \<lparr>entries = [\<lparr>type = ''article'', key = ''k'', fields_d = [(''x'', ''{a'')], raw = []\<rparr>],
            current_entry = Some \<lparr>type = ''article'', key = ''k'', fields_d = [(''x'', ''{a'')], raw = []\<rparr>,
            entry_content = [''@article{k,'', ''x = {a'', ''}''], in_entry = False\<rparr>"
    by (simp add: open_state_def)
  have ap: "[''x = {a'', '''', ''% c }''] @ [''}''] = [''x = {a'', '''', ''% c }'', ''}'']" by simp
  from r2 have "process_lines open_state [''x = {a'', '''', ''% c }'', ''}''] =
       Inr \<lparr>entries = [\<lparr>type = ''article'', key = ''k'', fields_d = [(''x'', ''{a'')], raw = []\<rparr>],
            current_entry = Some \<lparr>type = ''article'', key = ''k'', fields_d = [(''x'', ''{a'')], raw = []\<rparr>,
            entry_content = [''@article{k,'', ''x = {a'', ''}''], in_entry = False\<rparr>"
    unfolding kept p e ap .
  with h1 h5 a c show ?thesis by (simp only: simp_thms)
qed

text \<open>
  Claim C5 as stated fails on a start line without a comma: the key of
  \<^verbatim>\<open>@article{k1\<close> is "k1", not "unknown".
\<close>

theorem key_without_comma_is_not_unknown:
  "CHR '','' \<notin> set ''@article{k1''
   \<and> process_line init_state ''@article{k1'' =
       Inr \<lparr>entries = [],
            current_entry = Some \<lparr>type = ''article'', key = ''k1'', fields_d = [], raw = []\<rparr>,
            entry_content = [''@article{k1''], in_entry = True\<rparr>"
  by code_simp

text \<open>
  Claim C5 (amended): on an entry-start line the key is the text after the first opening
  brace that is followed by a character other than a comma, up to the next comma or, when
  no comma follows, to the end of the line; it is "unknown" when no opening brace of the
  line is followed by such a character.
\<close>

theorem key_follows_first_usable_brace:
  assumes "\<not> in_entry st" "is_start_line (strip l)"
  shows "\<exists>st' e. process_line st l = Inr st' \<and> current_entry st' = Some e
      \<and> (if closes_on_start (strip l) then \<not> in_entry st' \<and> entries st' = entries st @ [e]
          else in_entry st' \<and> entries st' = entries st)
      \<and> ((\<forall>j. \<not> key_start (drop j (strip l))) \<longrightarrow> key e = ''unknown'')
      \<and> (\<forall>pre k rest.
            strip l = pre @ CHR ''{'' # k @ rest \<and> k \<noteq> [] \<and> CHR '','' \<notin> set k
            \<and> (rest = [] \<or> hd rest = CHR '','')
            \<and> (\<forall>j < length pre. \<not> key_start (drop j (strip l)))
          \<longrightarrow> key e = k)"
proof -
  from start_line_entry[OF assms] obtain st' e where
    p: "process_line st l = Inr st'" "current_entry st' = Some e" "key e = entry_key (strip l)"
    "if closes_on_start (strip l) then \<not> in_entry st' \<and> entries st' = entries st @ [e]
          else in_entry st' \<and> entries st' = entries st"
    by blast
  have a: "key e = ''unknown''" if "\<forall>j. \<not> key_start (drop j (strip l))"
    using that p(3) by (simp add: entry_key_miss)
  have b: "key e = k"
    if "strip l = pre @ CHR ''{'' # k @ rest" "k \<noteq> []" "CHR '','' \<notin> set k"
       "rest = [] \<or> hd rest = CHR '',''" "\<forall>j < length pre. \<not> key_start (drop j (strip l))"
    for pre k rest
  proof -
    from that(5) have "\<And>j. j < length pre \<Longrightarrow> \<not> key_start (drop j (strip l))" by simp
    from entry_key_hit[OF that(1-4) this] p(3) show ?thesis by simp
  qed
  from p(1,2,4) a b show ?thesis by blast
qed

theorem key_follows_first_usable_brace_witness:
  "is_start_line (strip ''@article{k1'')
   \<and> process_line init_state ''@article{k1'' =
       Inr \<lparr>entries = [],
            current_entry = Some \<lparr>type = ''article'', key = ''k1'', fields_d = [], raw = []\<rparr>,
            entry_content = [''@article{k1''], in_entry = True\<rparr>
   \<and> is_start_line (strip ''@misc{,'')
   \<and> process_line init_state ''@misc{,'' =
       Inr \<lparr>entries = [],
            current_entry = Some \<lparr>type = ''misc'', key = ''unknown'', fields_d = [], raw = []\<rparr>,
            entry_content = [''@misc{,''], in_entry = True\<rparr>"
proof -
  have n: "\<not> in_entry init_state" by (simp add: init_state_def)
  have s1: "is_start_line (strip ''@article{k1'')" by code_simp
  have s2: "is_start_line (strip ''@misc{,'')" by code_simp
  have l1: "strip ''@article{k1'' = ''@article'' @ CHR ''{'' # ''k1'' @ []" by code_simp
  have l2: "strip ''@misc{,'' = ''@misc{,''" by code_simp
  have f1: "\<forall>j < length ''@article''. \<not> key_start (drop j (strip ''@article{k1''))"
  proof (intro allI impI)
    fix j assume "j < length ''@article''"
    then have "CHR ''{'' \<notin> set (take 1 (drop j ''@article{k1''))"
      by (auto simp: less_Suc_eq)
    then have "\<not> (drop j ''@article{k1'' \<noteq> [] \<and> hd (drop j ''@article{k1'') = CHR ''{'')"
      by (cases "drop j ''@article{k1''") auto
    with key_start_hd[of "drop j ''@article{k1''"] l1
    show "\<not> key_start (drop j (strip ''@article{k1''))" by auto
  qed
  have f2: "\<forall>j. \<not> key_start (drop j (strip ''@misc{,''))"
  proof
    fix j :: nat
    have "j = 0 \<or> j = 1 \<or> j = 2 \<or> j = 3 \<or> j = 4 \<or> j = 5 \<or> j = 6 \<or> 7 \<le> j" by arith
    moreover have "drop j ''@misc{,'' = []" if "7 \<le> j" using that by simp
    ultimately show "\<not> key_start (drop j (strip ''@misc{,''))"
      unfolding l2 by (elim disjE) auto
  qed
  from key_follows_first_usable_brace[OF n s1] obtain st1 e1 where
    r1: "process_line init_state ''@article{k1'' = Inr st1" "current_entry st1 = Some e1"
    and k1: "\<forall>pre k rest.
            strip ''@article{k1'' = pre @ CHR ''{'' # k @ rest \<and> k \<noteq> [] \<and> CHR '','' \<notin> set k
            \<and> (rest = [] \<or> hd rest = CHR '','')
            \<and> (\<forall>j < length pre. \<not> key_start (drop j (strip ''@article{k1'')))
          \<longrightarrow> key e1 = k"
    by blast
  from k1[rule_format, of "''@article''" "''k1''" "[]"] l1 f1 have ke1: "key e1 = ''k1''" by simp
  have c1: "process_line init_state ''@article{k1'' =
       Inr \<lparr>entries = [],
            current_entry = Some \<lparr>type = ''article'', key = ''k1'', fields_d = [], raw = []\<rparr>,
            entry_content = [''@article{k1''], in_entry = True\<rparr>" by code_simp
  from key_follows_first_usable_brace[OF n s2] obtain st2 e2 where
    r2: "process_line init_state ''@misc{,'' = Inr st2" "current_entry st2 = Some e2"
    and k2: "(\<forall>j. \<not> key_start (drop j (strip ''@misc{,''))) \<longrightarrow> key e2 = ''unknown''"
    by blast
  from k2 f2 have ke2: "key e2 = ''unknown''" by blast
  have c2: "process_line init_state ''@misc{,'' =
       Inr \<lparr>entries = [],
            current_entry = Some \<lparr>type = ''misc'', key = ''unknown'', fields_d = [], raw = []\<rparr>,
            entry_content = [''@misc{,''], in_entry = True\<rparr>" by code_simp
  from ke1 ke2 c1 c2 s1 s2 show ?thesis by simp
qed

text \<open>
  Claim C6: parsing returns a list of entries for every sequence of lines and never
  raises, and so does the analysis of every list of files; a last entry that is opened but
  never closed yields no entry and leaves the entries parsed before it untouched.
\<close>

theorem parsing_never_raises:
  "(\<exists>es. parse_bibtex_file ls = Inr es)
   \<and> (\<exists>s. analyze_files files = Inr s)
   \<and> (process_lines init_state pre = Inr st \<and> \<not> in_entry st
        \<and> is_start_line (strip l) \<and> \<not> closes_on_start (strip l)
        \<and> (\<forall>x \<in> set rest. skipped (strip x) \<or> \<not> closes (strip x))
      \<longrightarrow> parse_bibtex_file (pre @ l # rest) = Inr (entries st))"
proof -
  from parse_files_total[of files] have "\<exists>s. analyze_files files = Inr s"
    by (auto simp: analyze_files_def)
  with parse_bibtex_file_total[of ls] unterminated_entry_dropped[of pre st l rest]
  show ?thesis by blast
qed

theorem parsing_never_raises_witness:
  "process_lines init_state [''@misc{a, x = {1}}''] = Inr closed_state
   \<and> is_start_line (strip ''@article{k,'')
   \<and> parse_bibtex_file ([''@misc{a, x = {1}}''] @ ''@article{k,'' # [''title = {T},'', ''year = 1999''])
       = Inr [\<lparr>type = ''misc'', key = ''a'', fields_d = [], raw = [''@misc{a, x = {1}}'']\<rparr>]"
proof -
  have h1: "process_lines init_state [''@misc{a, x = {1}}''] = Inr closed_state" by code_simp
  have h2: "\<not> in_entry closed_state" by (simp add: closed_state_def)
  have h3: "is_start_line (strip ''@article{k,'')" by code_simp
  have h4: "\<not> closes_on_start (strip ''@article{k,'')" by code_simp
  have a: "\<not> closes (strip ''title = {T},'')" by code_simp
  have b: "\<not> closes (strip ''year = 1999'')" by code_simp
  have h5: "\<forall>x \<in> set [''title = {T},'', ''year = 1999'']. skipped (strip x) \<or> \<not> closes (strip x)"
    using a b by simp
  from parsing_never_raises[of "[]" "[]" "[''@misc{a, x = {1}}'']" closed_state "''@article{k,''"
      "[''title = {T},'', ''year = 1999'']"] h1 h2 h3 h4 h5
  have "parse_bibtex_file ([''@misc{a, x = {1}}''] @ ''@article{k,'' # [''title = {T},'', ''year = 1999''])
       = Inr (entries closed_state)" by blast
  with h1 h3 show ?thesis by (simp add: closed_state_def)
qed

text \<open>
  Claim C8: cleaning a value that is trimmed, has no trailing comma and is not wrapped in
  matching braces or quotes returns it unchanged. The code does so for every such value
  (\<open>clean_value_id\<close>) but one: the value made of a single double quote starts and ends
  with a quote, and the slice \<^verbatim>\<open>[1:-1]\<close> leaves the empty string. The parser meets
  that value in an entry with the line \<^verbatim>\<open>note = "\<close>.
\<close>

theorem lone_quote_is_not_kept:
  "already_normalized [CHR 0x22] \<and> clean_value [CHR 0x22] = []
   \<and> parse_bibtex_file [''@misc{k,'', ''note = '' @ [CHR 0x22], ''}''] =
       Inr [\<lparr>type = ''misc'', key = ''k'', fields_d = [(''note'', [])], raw = []\<rparr>]
   \<and> re_findall2 field_pattern (''note = '' @ [CHR 0x22, CHR 0x0A] @ ''}'') = [(''note'', [CHR 0x22])]"
  by code_simp

text \<open>
  Claim C10 as stated fails when a brace precedes the entry's own opening brace: the key
  pattern is searched from the start of the line, so on
  \<^verbatim>\<open>{x} @article{ k1 , title = {T},\<close> the entry's opening brace is followed by
  \<^verbatim>\<open> k1 \<close> and a comma, yet the key is \<^verbatim>\<open>x} @article{ k1 \<close>.
\<close>

theorem key_starts_at_an_earlier_brace:
  "is_start_line (strip ''{x} @article{ k1 , title = {T},'')
   \<and> strip ''{x} @article{ k1 , title = {T},''
       = ''{x} @article'' @ CHR ''{'' # '' k1 '' @ CHR '','' # '' title = {T},''
   \<and> process_line init_state ''{x} @article{ k1 , title = {T},'' =
       Inr \<lparr>entries = [],
            current_entry =
              Some \<lparr>type = ''article'', key = ''x} @article{ k1 '', fields_d = [], raw = []\<rparr>,
            entry_content = [''{x} @article{ k1 , title = {T},''], in_entry = True\<rparr>
   \<and> ''x} @article{ k1 '' \<noteq> '' k1 ''"
  by code_simp

text \<open>
  Claim C10 (amended): the key is taken from the start line as it stands, without
  trimming: when the first opening brace of the line is followed by characters other than
  a comma and then a comma, those characters, spaces included, are the key of the entry;
  \<^verbatim>\<open>@article{ k1 , ...\<close> yields the key \<^verbatim>\<open> k1 \<close>.
\<close>

theorem key_is_kept_verbatim:
  assumes "\<not> in_entry st" "is_start_line (strip l)"
    and "strip l = pre @ CHR ''{'' # k @ CHR '','' # post"
    and "CHR ''{'' \<notin> set pre" "k \<noteq> []" "CHR '','' \<notin> set k"
  shows "\<exists>st' e. process_line st l = Inr st' \<and> current_entry st' = Some e \<and> key e = k
      \<and> (if closes_on_start (strip l) then \<not> in_entry st' \<and> entries st' = entries st @ [e]
          else in_entry st' \<and> entries st' = entries st)"
proof -
  have first: "\<not> key_start (drop j (strip l))" if "j < length pre" for j
  proof
    assume "key_start (drop j (strip l))"
    from key_start_hd[OF this] assms(3) that have "hd (drop j pre @ CHR ''{'' # k @ CHR '','' # post) = CHR ''{''"
      by simp
    moreover from that have "drop j pre \<noteq> []" by simp
    ultimately have "hd (drop j pre) = CHR ''{''" by simp
    moreover from \<open>drop j pre \<noteq> []\<close> have "hd (drop j pre) \<in> set pre"
      by (meson hd_in_set in_set_dropD)
    ultimately show False using assms(4) by simp
  qed
  have "entry_key (strip l) = k"
    by (rule entry_key_hit[OF assms(3) assms(5) assms(6) _ first]) simp_all
  with start_line_entry[OF assms(1,2)] show ?thesis by auto
qed

theorem key_is_kept_verbatim_witness:
  "is_start_line (strip ''@article{ k1 , title = {T},'')
   \<and> strip ''@article{ k1 , title = {T},'' = ''@article'' @ CHR ''{'' # '' k1 '' @ CHR '','' # '' title = {T},''
   \<and> process_line init_state ''@article{ k1 , title = {T},'' =
       Inr \<lparr>entries = [],
            current_entry = Some \<lparr>type = ''article'', key = '' k1 '', fields_d = [], raw = []\<rparr>,
            entry_content = [''@article{ k1 , title = {T},''], in_entry = True\<rparr>"
proof -
  have n: "\<not> in_entry init_state" by (simp add: init_state_def)
  have s: "is_start_line (strip ''@article{ k1 , title = {T},'')" by code_simp
  have l: "strip ''@article{ k1 , title = {T},'' = ''@article'' @ CHR ''{'' # '' k1 '' @ CHR '','' # '' title = {T},''"
    by code_simp
  have c: "\<not> closes_on_start (strip ''@article{ k1 , title = {T},'')" by code_simp
  from key_is_kept_verbatim[OF n s l] c obtain st' e where
    r: "process_line init_state ''@article{ k1 , title = {T},'' = Inr st'"
       "current_entry st' = Some e" "key e = '' k1 ''" "in_entry st'" "entries st' = entries init_state"
    by auto
  have "process_line init_state ''@article{ k1 , title = {T},'' =
       Inr \<lparr>entries = [],
            current_entry = Some \<lparr>type = ''article'', key = '' k1 '', fields_d = [], raw = []\<rparr>,
            entry_content = [''@article{ k1 , title = {T},''], in_entry = True\<rparr>" by code_simp
  with r s l show ?thesis by simp
qed

section \<open>Properties of the normalization\<close>

text \<open>
  Claim C3 as stated fails on its own example: the booktitle
  "Proceedings of the International Conference on Foo" keeps its article.
\<close>

theorem booktitle_keeps_the_article:
  "snd (extract_venue_info booktitle_entry) = ''the International Conference on Foo''
   \<and> snd (extract_venue_info booktitle_entry) \<noteq> ''International Conference on Foo''"
  by code_simp

text \<open>
  Claim C3 (amended): venue normalization removes braces, strips a leading "proceedings of"
  in any case with the whitespace after it from journal and conference names, strips a
  leading "the" followed by whitespace from journal names only, and trims. The booktitle
  "Proceedings of the International Conference on Foo" becomes
  "the International Conference on Foo"; the journal "The Journal of Bar" becomes
  "Journal of Bar".
\<close>

theorem venue_prefixes_stripped:
  "snd (extract_venue_info e)
     = strip (strip_proceedings (remove_chr CHR ''}'' (remove_chr CHR ''{''
         (py_or (dict_get (fields_d e) ''booktitle'' []) (dict_get (fields_d e) ''conference'' [])))))
   \<and> fst (extract_venue_info e)
     = strip (strip_the (strip_proceedings (remove_chr CHR ''}'' (remove_chr CHR ''{''
         (py_or (dict_get (fields_d e) ''journal'' []) (dict_get (fields_d e) ''journaltitle'' []))))))
   \<and> fst (extract_venue_info journal_entry) = ''Journal of Bar''
   \<and> snd (extract_venue_info booktitle_entry) = ''the International Conference on Foo''"
proof -
  have "fst (extract_venue_info journal_entry) = ''Journal of Bar''" by code_simp
  moreover have "snd (extract_venue_info booktitle_entry) = ''the International Conference on Foo''"
    by code_simp
  ultimately show ?thesis using fst_venue[of e] snd_venue[of e] by simp
qed

theorem venue_prefixes_stripped_witness:
  "strip (strip_the (strip_proceedings (remove_chr CHR ''}'' (remove_chr CHR ''{''
      (py_or (dict_get (fields_d journal_entry) ''journal'' [])
             (dict_get (fields_d journal_entry) ''journaltitle'' []))))))
     = ''Journal of Bar''
   \<and> fst (extract_venue_info journal_entry) = ''Journal of Bar''"
proof -
  have "strip (strip_the (strip_proceedings (remove_chr CHR ''}'' (remove_chr CHR ''{''
      (py_or (dict_get (fields_d journal_entry) ''journal'' [])
             (dict_get (fields_d journal_entry) ''journaltitle'' []))))))
     = ''Journal of Bar''" by code_simp
  with venue_prefixes_stripped[of journal_entry] show ?thesis by simp
qed

text \<open>
  Claim C4 as stated fails when the digits run on: the year value "20201" is one run of
  five digits, so it has no run of exactly four, yet the entry is counted under "2020".
\<close>

theorem five_digit_year_counts:
  "list_all py_isdigit ''20201'' \<and> length ''20201'' = 5
   \<and> years (calculate_statistics [year_of ''20201'']) = [(''2020'', 1)]"
  by code_simp

text \<open>
  Claim C4 (amended): the year label is the first four consecutive decimal digits of the
  year value, whether or not more digits follow; a value without four consecutive digits
  adds nothing to the year table. "2020." gives "2020" and "in press" gives nothing.
\<close>

theorem year_is_first_four_digits:
  "((\<forall>j. \<not> four_digits (drop j (dict_get (fields_d e) ''year'' [])))
      \<longrightarrow> years (count_entry st e) = years st)
   \<and> (\<forall>i. four_digits (drop i (dict_get (fields_d e) ''year'' []))
          \<and> (\<forall>j<i. \<not> four_digits (drop j (dict_get (fields_d e) ''year'' [])))
        \<longrightarrow> years (count_entry st e)
            = counter_incr (years st) (take 4 (drop i (dict_get (fields_d e) ''year'' []))))
   \<and> years (calculate_statistics [year_of ''2020.'']) = [(''2020'', 1)]
   \<and> years (calculate_statistics [year_of ''in press'']) = []"
proof -
  let ?y = "dict_get (fields_d e) ''year'' []"
  have a: "years (count_entry st e) = years st" if "\<forall>j. \<not> four_digits (drop j ?y)"
  proof -
    from that have "re_search year_pattern ?y = None" by (intro year_search_miss) simp
    then show ?thesis by (simp add: years_count_entry)
  qed
  have b: "years (count_entry st e) = counter_incr (years st) (take 4 (drop i ?y))"
    if "four_digits (drop i ?y)" "\<forall>j<i. \<not> four_digits (drop j ?y)" for i
  proof -
    from that(2) have "\<And>j. j < i \<Longrightarrow> \<not> four_digits (drop j ?y)" by simp
    from year_search_hit[OF that(1) this] obtain m where
      m: "re_search year_pattern ?y = Some m" "m_text m = take 4 (drop i ?y)" by blast
    from that(1) have "?y \<noteq> []" by (auto simp: four_digits_def)
    with m show ?thesis by (simp add: years_count_entry)
  qed
  have c: "years (calculate_statistics [year_of ''2020.'']) = [(''2020'', 1)]" by code_simp
  have d: "years (calculate_statistics [year_of ''in press'']) = []" by code_simp
  from a b c d show ?thesis by blast
qed

theorem year_is_first_four_digits_witness:
  "four_digits (drop 3 (dict_get (fields_d (year_of ''ca.19995'')) ''year'' []))
   \<and> years (count_entry \<lparr>total_entries = 1, entry_types = [], authors = [], journals = [],
        conferences = [], years = []\<rparr> (year_of ''ca.19995'')) = [(''1999'', 1)]"
proof -
  let ?e = "year_of ''ca.19995''"
  let ?st = "\<lparr>total_entries = 1, entry_types = [], authors = [], journals = [],
        conferences = [], years = []\<rparr>"
  have h1: "four_digits (drop 3 (dict_get (fields_d ?e) ''year'' []))" by code_simp
  have h2: "\<forall>j<3. \<not> four_digits (drop j (dict_get (fields_d ?e) ''year'' []))"
  proof (intro allI impI)
    fix j :: nat assume "j < 3"
    then have "j = 0 \<or> j = 1 \<or> j = 2" by auto
    moreover have "\<not> four_digits (drop 0 (dict_get (fields_d ?e) ''year'' []))" by code_simp
    moreover have "\<not> four_digits (drop 1 (dict_get (fields_d ?e) ''year'' []))" by code_simp
    moreover have "\<not> four_digits (drop 2 (dict_get (fields_d ?e) ''year'' []))" by code_simp
    ultimately show "\<not> four_digits (drop j (dict_get (fields_d ?e) ''year'' []))" by blast
  qed
  from year_is_first_four_digits[of ?e ?st] h1 h2
  have "years (count_entry ?st ?e) = counter_incr (years ?st) (take 4 (drop 3 (dict_get (fields_d ?e) ''year'' [])))"
    by blast
  moreover have "counter_incr (years ?st) (take 4 (drop 3 (dict_get (fields_d ?e) ''year'' []))) = [(''1999'', 1)]"
    by code_simp
  ultimately show ?thesis using h1 by simp
qed

section \<open>Properties of the aggregation\<close>

text \<open>
  Claim C7: for every sequence of parsed entries, \<open>total_entries\<close> of the statistics equals
  the sum, over all labels of the \<open>entry_types\<close> table, of their counts. The table holds
  each label once, so this is also the sum of the stored counts.
\<close>

theorem total_entries_is_sum_of_entry_types:
  "total_entries (calculate_statistics es)
     = (\<Sum>l \<in> fst ` set (entry_types (calculate_statistics es)).
          dict_get (entry_types (calculate_statistics es)) l 0)
   \<and> total_entries (calculate_statistics es)
     = sum_list (map snd (entry_types (calculate_statistics es)))"
proof -
  let ?st0 = "\<lparr>total_entries = int (length es), entry_types = [], authors = [], journals = [],
        conferences = [], years = []\<rparr>"
  have f: "total_entries (foldl count_entry ?st0 es) = int (length es)"
    "sum_list (map snd (entry_types (foldl count_entry ?st0 es))) = int (length es)"
    "distinct (map fst (entry_types (foldl count_entry ?st0 es)))"
    using foldl_count_entry_types[of ?st0 es] by simp_all
  show ?thesis
    unfolding calculate_statistics_def using f sum_over_labels[OF f(3)] by simp
qed

theorem total_entries_is_sum_of_entry_types_witness:
  "total_entries (calculate_statistics [year_entry])
     = (\<Sum>l \<in> fst ` set (entry_types (calculate_statistics [year_entry])).
          dict_get (entry_types (calculate_statistics [year_entry])) l 0)
   \<and> total_entries (calculate_statistics [year_entry]) = 1"
  using total_entries_is_sum_of_entry_types[of "[year_entry]"]
  by (simp add: year_entry_statistics)

text \<open>
  Claim C9: in the statistics every label present in one of the five frequency tables
  (entry types, authors, journals, conferences, years) has a count of at least 1.
\<close>

theorem stored_counts_at_least_one:
  "\<forall>tbl \<in> {entry_types (calculate_statistics es), authors (calculate_statistics es),
             journals (calculate_statistics es), conferences (calculate_statistics es),
             years (calculate_statistics es)}.
     \<forall>l \<in> fst ` set tbl. 1 \<le> dict_get tbl l 0"
proof -
  let ?st0 = "\<lparr>total_entries = int (length es), entry_types = [], authors = [], journals = [],
        conferences = [], years = []\<rparr>"
  have "positive_counts ?st0" by (simp add: positive_counts_def all_positive_def)
  then have "positive_counts (calculate_statistics es)"
    unfolding calculate_statistics_def by (rule foldl_count_entry_positive)
  moreover have "1 \<le> dict_get tbl l 0" if "all_positive tbl" "l \<in> fst ` set tbl" for tbl l
    using label_count[OF that(2), of 0] that(1) unfolding all_positive_def by blast
  ultimately show ?thesis unfolding positive_counts_def by simp
qed

theorem stored_counts_at_least_one_witness:
  "''1999'' \<in> fst ` set (years (calculate_statistics [year_entry]))
   \<and> 1 \<le> dict_get (years (calculate_statistics [year_entry])) ''1999'' 0"
proof -
  have m: "''1999'' \<in> fst ` set (years (calculate_statistics [year_entry]))"
    by (simp add: year_entry_statistics)
  from stored_counts_at_least_one[of "[year_entry]"] m
  have "1 \<le> dict_get (years (calculate_statistics [year_entry])) ''1999'' 0" by blast
  with m show ?thesis by blast
qed

end
